theory Spec2Isabelle
  imports Main "HOL-Library.AList" "HOL-Library.Sublist" "HOL-Library.Char_ord"
    "HOL-Library.List_Lexorder"
begin

section \<open>Values decoded from JSON\<close>

text \<open>
  The scraper works on what \<^verbatim>\<open>json.loads\<close> and \<^verbatim>\<open>response.json()\<close> return: \<^verbatim>\<open>None\<close>,
  booleans, integers, floats, strings, lists and dicts. A dict is kept as its list of
  entries in insertion order; the keys of a Python dict are distinct. The program never
  computes with a float: it only passes it on or prints it, so a float is carried as the
  text that \<^verbatim>\<open>str\<close> gives for it.
\<close>

datatype json =
    JNull
  | JBool bool
  | JInt int
  | JFloat string
  | JStr string
  | JList "json list"
  | JDict "(string \<times> json) list"

fun is_dict :: "json \<Rightarrow> bool" where
  "is_dict (JDict m) = True"
| "is_dict _ = False"

fun is_list :: "json \<Rightarrow> bool" where
  "is_list (JList xs) = True"
| "is_list _ = False"

text \<open>Python's truth value of an object, as \<^verbatim>\<open>if v\<close> and \<^verbatim>\<open>while products\<close> take it.\<close>

fun truthy :: "json \<Rightarrow> bool" where
  "truthy JNull = False"
| "truthy (JBool b) = b"
| "truthy (JInt i) = (i \<noteq> 0)"
| "truthy (JFloat s) = (s \<noteq> ''0.0'' \<and> s \<noteq> ''-0.0'')"
| "truthy (JStr s) = (s \<noteq> [])"
| "truthy (JList xs) = (xs \<noteq> [])"
| "truthy (JDict m) = (m \<noteq> [])"

subsection \<open>\<^verbatim>\<open>str\<close> and \<^verbatim>\<open>repr\<close>\<close>

definition digit_char :: "nat \<Rightarrow> char" where
  "digit_char n = ''0123456789abcdef'' ! n"

fun str_nat :: "nat \<Rightarrow> string" where
  "str_nat n = (if n < 10 then [digit_char n] else str_nat (n div 10) @ [digit_char (n mod 10)])"

declare str_nat.simps [simp del]

definition str_int :: "int \<Rightarrow> string" where
  "str_int i = (if i < 0 then CHR ''-'' # str_nat (nat (- i)) else str_nat (nat i))"

text \<open>\<^verbatim>\<open>sep.join(parts)\<close>\<close>

fun join :: "string \<Rightarrow> string list \<Rightarrow> string" where
  "join sep [] = []"
| "join sep [x] = x"
| "join sep (x # y # ys) = x @ sep @ join sep (y # ys)"

text \<open>
  \<^verbatim>\<open>repr\<close> of a string: single quotes, unless the string has a single quote and no double
  quote; backslash, the quote, tab, newline and carriage return are escaped, other control
  characters are written \<^verbatim>\<open>\xhh\<close>. Bytes from 128 on stand for printable characters and
  are kept.
\<close>

definition repr_char :: "char \<Rightarrow> char \<Rightarrow> string" where
  "repr_char quote c =
     (if c = quote \<or> c = CHR 0x5C then [CHR 0x5C, c]
      else if c = CHR 0x09 then [CHR 0x5C, CHR ''t'']
      else if c = CHR 0x0A then [CHR 0x5C, CHR ''n'']
      else if c = CHR 0x0D then [CHR 0x5C, CHR ''r'']
      else if (of_char c :: nat) < 32 \<or> (of_char c :: nat) = 127
        then [CHR 0x5C, CHR ''x'', digit_char (of_char c div 16), digit_char (of_char c mod 16)]
      else [c])"

definition repr_str :: "string \<Rightarrow> string" where
  "repr_str s =
     (let quote = (if CHR 0x27 \<in> set s \<and> CHR 0x22 \<notin> set s then CHR 0x22 else CHR 0x27)
      in [quote] @ concat (map (repr_char quote) s) @ [quote])"

fun py_repr :: "json \<Rightarrow> string" where
  "py_repr JNull = ''None''"
| "py_repr (JBool b) = (if b then ''True'' else ''False'')"
| "py_repr (JInt i) = str_int i"
| "py_repr (JFloat s) = s"
| "py_repr (JStr s) = repr_str s"
| "py_repr (JList xs) = ''['' @ join '', '' (map py_repr xs) @ '']''"
| "py_repr (JDict m) =
     ''{'' @ join '', '' (map (\<lambda>kv. repr_str (fst kv) @ '': '' @ py_repr (snd kv)) m) @ ''}''"

text \<open>\<^verbatim>\<open>str(v)\<close>: a string is itself, everything else prints as its \<^verbatim>\<open>repr\<close>.\<close>

definition py_str :: "json \<Rightarrow> string" where
  "py_str v = (case v of JStr s \<Rightarrow> s | _ \<Rightarrow> py_repr v)"

subsection \<open>Dicts\<close>

text \<open>
  \<^verbatim>\<open>dict(items)\<close>: the pairs are stored one after the other; a key seen again keeps its place
  and takes the new value.
\<close>

definition py_dict :: "(string \<times> 'v) list \<Rightarrow> (string \<times> 'v) list" where
  "py_dict items = fold (\<lambda>kv d. AList.update (fst kv) (snd kv) d) items []"

text \<open>\<^verbatim>\<open>d.get(key, default)\<close>\<close>

definition dict_get :: "(string \<times> 'v) list \<Rightarrow> string \<Rightarrow> 'v \<Rightarrow> 'v" where
  "dict_get d key dflt = (case map_of d key of None \<Rightarrow> dflt | Some v \<Rightarrow> v)"

text \<open>\<^verbatim>\<open>d.keys()\<close>\<close>

definition dict_keys :: "(string \<times> 'v) list \<Rightarrow> string list" where
  "dict_keys d = map fst d"

section \<open>\<^verbatim>\<open>flatten_dict\<close>\<close>

text \<open>
  \<^verbatim>\<open>flatten_dict(d, parent_key, sep)\<close>. \<open>flatten_items\<close> is the loop over \<^verbatim>\<open>d.items()\<close>
  and gives the list \<^verbatim>\<open>items\<close>; \<open>flatten_enum\<close> is the loop over \<^verbatim>\<open>enumerate(v)\<close>, with
  the index it has reached. The key of a list element is built with a literal underscore,
  whatever \<^verbatim>\<open>sep\<close> is.
\<close>

function flatten_dict :: "(string \<times> json) list \<Rightarrow> string \<Rightarrow> string \<Rightarrow> (string \<times> json) list"
  and flatten_items :: "(string \<times> json) list \<Rightarrow> string \<Rightarrow> string \<Rightarrow> (string \<times> json) list"
  and flatten_enum :: "json list \<Rightarrow> nat \<Rightarrow> string \<Rightarrow> string \<Rightarrow> (string \<times> json) list"
where
  "flatten_dict d parent_key sep = py_dict (flatten_items d parent_key sep)"
| "flatten_items [] parent_key sep = []"
| "flatten_items ((k, v) # d) parent_key sep =
     (let new_key = (if parent_key \<noteq> [] then parent_key @ sep @ k else k) in
      (case v of
         JDict m \<Rightarrow> flatten_dict m new_key sep
       | JList xs \<Rightarrow>
           if xs \<noteq> [] \<and> is_dict (hd xs) then flatten_enum xs 0 new_key sep
           else [(new_key, JStr (if xs \<noteq> [] then join ''|'' (map py_str xs) else []))]
       | _ \<Rightarrow> [(new_key, v)])
      @ flatten_items d parent_key sep)"
| "flatten_enum [] i new_key sep = []"
| "flatten_enum (item # xs) i new_key sep =
     (case item of
        JDict m \<Rightarrow> flatten_dict m (new_key @ ''_'' @ str_nat i) sep
      | _ \<Rightarrow> [(new_key @ ''_'' @ str_nat i, item)])
     @ flatten_enum xs (Suc i) new_key sep"
  by pat_completeness auto

termination
  by (relation "measure (\<lambda>x. case x of
         Inl (d, _, _) \<Rightarrow> 2 * size_list (size_prod (\<lambda>_. 0) size) d + 1
       | Inr (Inl (d, _, _)) \<Rightarrow> 2 * size_list (size_prod (\<lambda>_. 0) size) d
       | Inr (Inr (xs, _, _, _)) \<Rightarrow> 2 * size_list size xs)") auto


text \<open>The calls of the program leave \<^verbatim>\<open>parent_key\<close> and \<^verbatim>\<open>sep\<close> at their defaults.\<close>

definition flatten :: "(string \<times> json) list \<Rightarrow> (string \<times> json) list" where
  "flatten d = flatten_dict d [] ''_''"

section \<open>Field discovery\<close>

datatype error = TypeError | KeyError | AttributeError

text \<open>
  \<^verbatim>\<open>get_all_product_fields\<close>: \<open>product_fields_loop\<close> is its loop, with the set
  \<^verbatim>\<open>all_fields\<close> built so far. \<^verbatim>\<open>flatten_dict\<close> calls \<^verbatim>\<open>d.items()\<close>, which only a
  dict has: any other sample raises \<^verbatim>\<open>AttributeError\<close>.
\<close>

fun product_fields_loop :: "json list \<Rightarrow> string set \<Rightarrow> error + string set" where
  "product_fields_loop [] all_fields = Inr all_fields"
| "product_fields_loop (product # products_sample) all_fields =
     (case product of
        JDict d \<Rightarrow> product_fields_loop products_sample (all_fields \<union> set (dict_keys (flatten d)))
      | _ \<Rightarrow> Inl AttributeError)"

definition get_all_product_fields :: "json list \<Rightarrow> error + string list" where
  "get_all_product_fields products_sample =
     (case product_fields_loop products_sample {} of
        Inl e \<Rightarrow> Inl e
      | Inr all_fields \<Rightarrow> Inr (sorted_list_of_set all_fields))"

text \<open>\<^verbatim>\<open>get_all_variant_fields\<close> passes over a sample that is not a dict.\<close>

fun variant_fields_loop :: "json list \<Rightarrow> string set \<Rightarrow> string set" where
  "variant_fields_loop [] all_fields = all_fields"
| "variant_fields_loop (variant # variants_sample) all_fields =
     (case variant of
        JDict d \<Rightarrow> variant_fields_loop variants_sample (all_fields \<union> set (dict_keys (flatten d)))
      | _ \<Rightarrow> variant_fields_loop variants_sample all_fields)"

definition get_all_variant_fields :: "json list \<Rightarrow> string list" where
  "get_all_variant_fields variants_sample =
     sorted_list_of_set (variant_fields_loop variants_sample {})"

section \<open>The store, the console and the CSV file\<close>

text \<open>
  The three network calls are answered by the store. Each answer is what the body of the
  \<^verbatim>\<open>try\<close> block comes to: \<open>Inl e\<close> when it raises (the request fails, the body does not
  parse, the expected key is missing), with \<open>e\<close> the text of the exception, and \<open>Inr\<close>
  the value it returns otherwise. The store answers the same request the same way during
  a run. For a product page the answer is the pair of title and description that the
  HTML parser finds.
\<close>

record world =
  page_resp :: "nat \<Rightarrow> string + json"
  html_resp :: "string \<Rightarrow> string + (json \<times> json)"
  json_resp :: "string \<Rightarrow> string + json"

datatype request = GetPage nat | GetHtml string | GetJson string

text \<open>One constructor for each \<^verbatim>\<open>print\<close> of the program, with the values it formats.\<close>

datatype message =
    Usage
  | ErrorFetchingPage nat string
  | ErrorGettingTags string string
  | ErrorGettingData string string
  | AnalyzingFields
  | NoProductsFound
  | DebugProductFields "string list"
  | DebugVariantFields "string list"
  | BlankLine
  | CreatedCsv nat
  | StartingExtraction
  | Scraping string
  | ScrapingCompleted
  | TotalProducts nat
  | TotalVariants nat
  | DataSavedTo
  | TotalColumns nat

text \<open>
  What a run has done so far: the lines printed, the requests sent, the rows written
  after the header, and the two counters.
\<close>

record state =
  out :: "message list"
  requests :: "request list"
  rows :: "json list list"
  total_products :: nat
  total_variants :: nat

definition init_state :: state where
  "init_state = \<lparr>out = [], requests = [], rows = [], total_products = 0, total_variants = 0\<rparr>"

definition print :: "message \<Rightarrow> state \<Rightarrow> state" where
  "print m st = st\<lparr>out := out st @ [m]\<rparr>"

definition send :: "request \<Rightarrow> state \<Rightarrow> state" where
  "send r st = st\<lparr>requests := requests st @ [r]\<rparr>"

definition writerow :: "json list \<Rightarrow> state \<Rightarrow> state" where
  "writerow row st = st\<lparr>rows := rows st @ [row]\<rparr>"

definition get_page :: "world \<Rightarrow> nat \<Rightarrow> state \<Rightarrow> json \<times> state" where
  "get_page w page st =
     (case page_resp w page of
        Inr products \<Rightarrow> (products, send (GetPage page) st)
      | Inl e \<Rightarrow> (JList [], print (ErrorFetchingPage page e) (send (GetPage page) st)))"

definition get_tags_from_product :: "world \<Rightarrow> string \<Rightarrow> state \<Rightarrow> (json \<times> json) \<times> state" where
  "get_tags_from_product w product_url st =
     (case html_resp w product_url of
        Inr (title, description) \<Rightarrow> ((title, description), send (GetHtml product_url) st)
      | Inl e \<Rightarrow>
          ((JStr [], JStr []),
           print (ErrorGettingTags product_url e) (send (GetHtml product_url) st)))"

text \<open>\<^verbatim>\<open>get_complete_product_data\<close> returns \<^verbatim>\<open>None\<close> when the request or the parsing fails.\<close>

definition get_complete_product_data :: "world \<Rightarrow> string \<Rightarrow> state \<Rightarrow> json \<times> state" where
  "get_complete_product_data w product_url st =
     (case json_resp w (product_url @ ''.json'') of
        Inr product \<Rightarrow> (product, send (GetJson (product_url @ ''.json'')) st)
      | Inl e \<Rightarrow>
          (JNull,
           print (ErrorGettingData product_url e) (send (GetJson (product_url @ ''.json'')) st)))"

section \<open>Python operations on a decoded value\<close>

text \<open>\<^verbatim>\<open>for x in v\<close>: a list gives its elements, a dict its keys, a string its characters.\<close>

fun py_iter :: "json \<Rightarrow> error + json list" where
  "py_iter (JList xs) = Inr xs"
| "py_iter (JDict m) = Inr (map JStr (dict_keys m))"
| "py_iter (JStr s) = Inr (map (\<lambda>c. JStr [c]) s)"
| "py_iter _ = Inl TypeError"

text \<open>\<^verbatim>\<open>v[key]\<close> with a string key.\<close>

fun subscript :: "json \<Rightarrow> string \<Rightarrow> error + json" where
  "subscript (JDict m) key = (case map_of m key of None \<Rightarrow> Inl KeyError | Some v \<Rightarrow> Inr v)"
| "subscript _ key = Inl TypeError"

text \<open>\<^verbatim>\<open>key in v\<close> with a string key.\<close>

fun py_contains :: "string \<Rightarrow> json \<Rightarrow> error + bool" where
  "py_contains key (JDict m) = Inr (key \<in> set (dict_keys m))"
| "py_contains key (JList xs) = Inr (JStr key \<in> set xs)"
| "py_contains key (JStr s) = Inr (sublist key s)"
| "py_contains key _ = Inl TypeError"

text \<open>
  \<^verbatim>\<open>v[:3]\<close>. A list and a string can be sliced; for a dict the slice is looked up as a
  key and the lookup raises.
\<close>

fun slice3 :: "json \<Rightarrow> error + json" where
  "slice3 (JList xs) = Inr (JList (take 3 xs))"
| "slice3 (JStr s) = Inr (JStr (take 3 s))"
| "slice3 _ = Inl TypeError"

text \<open>\<^verbatim>\<open>base_url + '/products/' + product['handle']\<close>\<close>

definition product_url_of :: "string \<Rightarrow> json \<Rightarrow> error + string" where
  "product_url_of base_url product =
     (case subscript product ''handle'' of
        Inl e \<Rightarrow> Inl e
      | Inr handle \<Rightarrow>
          (case handle of JStr h \<Rightarrow> Inr (base_url @ ''/products/'' @ h) | _ \<Rightarrow> Inl TypeError))"


section \<open>The main loop\<close>

text \<open>The module-level variables that are fixed when the main loop starts.\<close>

record globals =
  base_url :: string
  with_variants :: bool
  product_fields :: "string list"
  variant_fields :: "string list"

definition header :: "globals \<Rightarrow> string list" where
  "header g =
     [''scraped_url'', ''meta_title'', ''meta_description''] @ product_fields g
     @ (if with_variants g then map (\<lambda>field. ''variant_'' @ field) (variant_fields g) else [])"

definition count_product :: "state \<Rightarrow> state" where
  "count_product st = st\<lparr>total_products := total_products st + 1\<rparr>"

definition count_variant :: "state \<Rightarrow> state" where
  "count_variant st = st\<lparr>total_variants := total_variants st + 1\<rparr>"

text \<open>
  The values a row takes from a flattened record, one for each field:
  \<^verbatim>\<open>for field in fields: row.append(flattened.get(field, ''))\<close>.
\<close>

definition field_values :: "string list \<Rightarrow> (string \<times> json) list \<Rightarrow> json list" where
  "field_values names flattened = map (\<lambda>field. dict_get flattened field (JStr [])) names"

text \<open>
  The loop over the variants of one product. An uncaught exception ends the run; the
  result \<open>Inl (e, st)\<close> keeps what had been done when \<open>e\<close> was raised.
\<close>

fun variant_loop ::
  "globals \<Rightarrow> json list \<Rightarrow> (string \<times> json) list \<Rightarrow> json list \<Rightarrow> state \<Rightarrow> (error \<times> state) + state"
where
  "variant_loop g lead flattened_product [] st = Inr st"
| "variant_loop g lead flattened_product (variant # variants) st =
     (case variant of
        JDict m \<Rightarrow>
          variant_loop g lead flattened_product variants
            (count_variant
               (writerow
                  (lead @ field_values (product_fields g) flattened_product
                   @ field_values (variant_fields g) (flatten m))
                  st))
      | _ \<Rightarrow> Inl (AttributeError, st))"

text \<open>The body of the loop over the products of a page.\<close>

definition process_product :: "world \<Rightarrow> globals \<Rightarrow> json \<Rightarrow> state \<Rightarrow> (error \<times> state) + state" where
  "process_product w g product st =
     (case product_url_of (base_url g) product of
        Inl e \<Rightarrow> Inl (e, st)
      | Inr product_url \<Rightarrow>
          (case get_tags_from_product w product_url (print (Scraping product_url) st) of
             ((title, description), st1) \<Rightarrow>
               (case get_complete_product_data w product_url st1 of
                  (complete_product, st2) \<Rightarrow>
                    if \<not> truthy complete_product then Inr st2
                    else
                      (case complete_product of
                         JDict d \<Rightarrow>
                           (let flattened_product = flatten d;
                                lead = [JStr product_url, title, description]
                            in if with_variants g \<and> ''variants'' \<in> set (dict_keys d) then
                                 (case subscript complete_product ''variants'' of
                                    Inl e \<Rightarrow> Inl (e, st2)
                                  | Inr variants \<Rightarrow>
                                      (case py_iter variants of
                                         Inl e \<Rightarrow> Inl (e, st2)
                                       | Inr vs \<Rightarrow>
                                           (case variant_loop g lead flattened_product vs st2 of
                                              Inl x \<Rightarrow> Inl x
                                            | Inr st3 \<Rightarrow> Inr (count_product st3))))
                               else
                                 Inr (count_product
                                        (writerow
                                           (lead @ field_values (product_fields g) flattened_product)
                                           st2)))
                       | _ \<Rightarrow> Inl (AttributeError, st2)))))"

fun product_loop :: "world \<Rightarrow> globals \<Rightarrow> json list \<Rightarrow> state \<Rightarrow> (error \<times> state) + state" where
  "product_loop w g [] st = Inr st"
| "product_loop w g (product # products) st =
     (case process_product w g product st of
        Inl x \<Rightarrow> Inl x
      | Inr st' \<Rightarrow> product_loop w g products st')"

text \<open>
  \<^verbatim>\<open>while products:\<close> with the page number and the products of that page. The loop need
  not end: a store can give a non-empty page for every number. \<open>None\<close> is a run that
  never leaves the loop.
\<close>

partial_function (option) page_loop ::
  "world \<Rightarrow> globals \<Rightarrow> nat \<Rightarrow> json \<Rightarrow> state \<Rightarrow> ((error \<times> state) + state) option"
where
  "page_loop w g page products st =
     (if truthy products then
        (case py_iter products of
           Inl e \<Rightarrow> Some (Inl (e, st))
         | Inr items \<Rightarrow>
             (case product_loop w g items st of
                Inl x \<Rightarrow> Some (Inl x)
              | Inr st' \<Rightarrow>
                  (case get_page w (page + 1) st' of
                     (products', st'') \<Rightarrow> page_loop w g (page + 1) products' st'')))
      else Some (Inr st))"

text \<open>\<^verbatim>\<open>page = 1; products = get_page(page); while products: ...\<close>\<close>

definition crawl :: "world \<Rightarrow> globals \<Rightarrow> state \<Rightarrow> ((error \<times> state) + state) option" where
  "crawl w g st = (case get_page w 1 st of (products, st') \<Rightarrow> page_loop w g 1 products st')"


section \<open>The run\<close>

text \<open>
  The loop over \<^verbatim>\<open>enumerate(sample_products[:3])\<close>, with the lists
  \<^verbatim>\<open>sample_complete_products\<close> and \<^verbatim>\<open>sample_variants\<close> built so far.
\<close>

fun sample_loop ::
  "world \<Rightarrow> string \<Rightarrow> json list \<Rightarrow> json list \<Rightarrow> json list \<Rightarrow> state
     \<Rightarrow> (error \<times> state) + ((json list \<times> json list) \<times> state)"
where
  "sample_loop w url0 [] sample_complete_products sample_variants st =
     Inr ((sample_complete_products, sample_variants), st)"
| "sample_loop w url0 (product # products) sample_complete_products sample_variants st =
     (case product_url_of url0 product of
        Inl e \<Rightarrow> Inl (e, st)
      | Inr product_url \<Rightarrow>
          (case get_complete_product_data w product_url st of
             (complete_product, st1) \<Rightarrow>
               if truthy complete_product then
                 (case py_contains ''variants'' complete_product of
                    Inl e \<Rightarrow> Inl (e, st1)
                  | Inr has_variants \<Rightarrow>
                      if has_variants then
                        (case subscript complete_product ''variants'' of
                           Inl e \<Rightarrow> Inl (e, st1)
                         | Inr variants \<Rightarrow>
                             if truthy variants then
                               (case py_iter variants of
                                  Inl e \<Rightarrow> Inl (e, st1)
                                | Inr vs \<Rightarrow>
                                    sample_loop w url0 products
                                      (sample_complete_products @ [complete_product])
                                      (sample_variants @ vs) st1)
                             else
                               sample_loop w url0 products
                                 (sample_complete_products @ [complete_product])
                                 sample_variants st1)
                      else
                        sample_loop w url0 products
                          (sample_complete_products @ [complete_product])
                          sample_variants st1)
               else sample_loop w url0 products sample_complete_products sample_variants st1))"

text \<open>The command line, as \<^verbatim>\<open>argparse\<close> hands it over.\<close>

record args =
  website_url :: "string option"
  variants :: bool
  debug :: bool

datatype status = Exit nat | Uncaught error

text \<open>
  How a run ends: its exit status or the exception that stopped it, what it had done by
  then, and the header of \<^verbatim>\<open>products_complete.csv\<close>, which is \<open>None\<close> when the file was never
  opened. The rows of the state follow the header in the file.
\<close>

record outcome =
  status :: status
  final :: state
  csv_header :: "string list option"

definition debug_prints :: "globals \<Rightarrow> state \<Rightarrow> state" where
  "debug_prints g st =
     print BlankLine
       ((if with_variants g \<and> variant_fields g \<noteq> []
         then print (DebugVariantFields (variant_fields g)) else id)
          (print (DebugProductFields (product_fields g)) st))"

definition summary_prints :: "globals \<Rightarrow> state \<Rightarrow> state" where
  "summary_prints g st =
     print (TotalColumns (length (header g)))
       (print DataSavedTo
          ((if with_variants g then print (TotalVariants (total_variants st)) else id)
             (print (TotalProducts (total_products st)) (print ScrapingCompleted st))))"

definition main :: "world \<Rightarrow> args \<Rightarrow> outcome option" where
  "main w a =
     (if website_url a = None \<or> website_url a = Some [] then
        Some \<lparr>status = Exit 0, final = print Usage init_state, csv_header = None\<rparr>
      else
        (case get_page w 1 (print AnalyzingFields init_state) of
           (sample_products, st1) \<Rightarrow>
             if \<not> truthy sample_products then
               Some \<lparr>status = Exit 1, final = print NoProductsFound st1, csv_header = None\<rparr>
             else
               (case slice3 sample_products of
                  Inl e \<Rightarrow> Some \<lparr>status = Uncaught e, final = st1, csv_header = None\<rparr>
                | Inr first3 \<Rightarrow>
                    (case py_iter first3 of
                       Inl e \<Rightarrow> Some \<lparr>status = Uncaught e, final = st1, csv_header = None\<rparr>
                     | Inr products \<Rightarrow>
                         (case sample_loop w (the (website_url a)) products [] [] st1 of
                            Inl (e, st2) \<Rightarrow>
                              Some \<lparr>status = Uncaught e, final = st2, csv_header = None\<rparr>
                          | Inr ((sample_complete_products, sample_variants), st2) \<Rightarrow>
                              (case get_all_product_fields sample_complete_products of
                                 Inl e \<Rightarrow>
                                   Some \<lparr>status = Uncaught e, final = st2, csv_header = None\<rparr>
                               | Inr discovered \<Rightarrow>
                                   (let g = \<lparr>base_url = the (website_url a),
                                             with_variants = variants a,
                                             product_fields = discovered,
                                             variant_fields =
                                               (if variants a
                                                then get_all_variant_fields sample_variants
                                                else [])\<rparr>;
                                        st3 = (if debug a then debug_prints g st2 else st2);
                                        st4 = print StartingExtraction
                                                (print (CreatedCsv (length (header g))) st3)
                                    in case crawl w g st4 of
                                         None \<Rightarrow> None
                                       | Some (Inl (e, st5)) \<Rightarrow>
                                           Some \<lparr>status = Uncaught e, final = st5,
                                                 csv_header = Some (header g)\<rparr>
                                       | Some (Inr st5) \<Rightarrow>
                                           Some \<lparr>status = Exit 0,
                                                 final = summary_prints g st5,
                                                 csv_header = Some (header g)\<rparr>)))))))"

section \<open>Notions used in the statements\<close>

text \<open>A page gives nothing: the request fails, or what it returns is empty.\<close>

definition page_empty :: "world \<Rightarrow> nat \<Rightarrow> bool" where
  "page_empty w page =
     (case page_resp w page of Inl e \<Rightarrow> True | Inr products \<Rightarrow> \<not> truthy products)"

text \<open>The state a part of the run has reached, whether it ended or was stopped.\<close>

fun reached :: "(error \<times> state) + state \<Rightarrow> state" where
  "reached (Inl (e, st)) = st"
| "reached (Inr st) = st"

text \<open>The numbers of the pages that were requested, in the order of the requests.\<close>

definition pages_requested :: "state \<Rightarrow> nat list" where
  "pages_requested st =
     concat (map (\<lambda>r. case r of GetPage page \<Rightarrow> [page] | _ \<Rightarrow> []) (requests st))"

text \<open>
  Processing a given list of pages, one after the other: each page is fetched and the
  loop over its products runs. This is what the claim about pagination compares the
  \<^verbatim>\<open>while\<close> loop with.
\<close>

fun process_pages :: "world \<Rightarrow> globals \<Rightarrow> nat list \<Rightarrow> state \<Rightarrow> (error \<times> state) + state" where
  "process_pages w g [] st = Inr st"
| "process_pages w g (page # pages) st =
     (case get_page w page st of
        (products, st1) \<Rightarrow>
          (case py_iter products of
             Inl e \<Rightarrow> Inl (e, st1)
           | Inr items \<Rightarrow>
               (case product_loop w g items st1 of
                  Inl x \<Rightarrow> Inl x
                | Inr st2 \<Rightarrow> process_pages w g pages st2)))"

text \<open>The entries of a record.\<close>

fun entries :: "json \<Rightarrow> (string \<times> json) list" where
  "entries (JDict m) = m"
| "entries _ = []"

text \<open>Every row written so far has as many values as the header has columns.\<close>

definition aligned :: "globals \<Rightarrow> state \<Rightarrow> bool" where
  "aligned g st = (\<forall>row\<in>set (rows st). length row = length (header g))"

text \<open>Every detail record that the store gives has a \<^verbatim>\<open>variants\<close> key.\<close>

definition variants_everywhere :: "world \<Rightarrow> bool" where
  "variants_everywhere w =
     (\<forall>u d. json_resp w u = Inr (JDict d) \<longrightarrow> ''variants'' \<in> set (dict_keys d))"

subsection \<open>Keys of a flattened record\<close>

text \<open>
  The key that \<^verbatim>\<open>flatten_dict\<close> builds for the entry \<open>k\<close> below \<open>parent_key\<close>, with the
  separator the program uses.
\<close>

definition compound :: "string \<Rightarrow> string \<Rightarrow> string" where
  "compound parent_key k = (if parent_key \<noteq> [] then parent_key @ ''_'' @ k else k)"

text \<open>
  The keys an entry can put into the result: its own compound key, a key that continues
  it after an underscore, or any key at all when the compound key is empty and the value
  is a record (the recursion then starts again without a prefix).
\<close>

definition may_emit :: "string \<Rightarrow> string \<times> json \<Rightarrow> string \<Rightarrow> bool" where
  "may_emit parent_key kv q =
     (compound parent_key (fst kv) = q
      \<or> prefix (compound parent_key (fst kv) @ ''_'') q
      \<or> (compound parent_key (fst kv) = [] \<and> is_dict (snd kv)))"

text \<open>No entry of \<open>d\<close> other than the entry \<open>k\<close> can put the key \<open>q\<close> into the result.\<close>

definition only_from :: "string \<Rightarrow> (string \<times> json) list \<Rightarrow> string \<Rightarrow> string \<Rightarrow> bool" where
  "only_from parent_key d k q =
     (\<forall>kv\<in>set d. fst kv \<noteq> k \<longrightarrow> \<not> may_emit parent_key kv q)"

text \<open>A scalar: neither a record nor a sequence.\<close>

definition is_scalar :: "json \<Rightarrow> bool" where
  "is_scalar v = (\<not> is_dict v \<and> \<not> is_list v)"

text \<open>
  The scalar that a record has at the end of a path of keys, each key but the last bound
  to a nested record.
\<close>

fun leaf_at :: "(string \<times> json) list \<Rightarrow> string list \<Rightarrow> json option" where
  "leaf_at d [] = None"
| "leaf_at d [b] =
     (case map_of d b of Some x \<Rightarrow> if is_scalar x then Some x else None | None \<Rightarrow> None)"
| "leaf_at d (b # c # path) =
     (case map_of d b of Some (JDict sub) \<Rightarrow> leaf_at sub (c # path) | _ \<Rightarrow> None)"

text \<open>
  Along a path of keys: the keys of each record on the path are distinct, and no entry
  other than the one on the path can put the key \<open>q\<close> into the result.
\<close>

fun unshadowed :: "string \<Rightarrow> (string \<times> json) list \<Rightarrow> string list \<Rightarrow> string \<Rightarrow> bool" where
  "unshadowed parent_key d [] q = True"
| "unshadowed parent_key d (b # path) q =
     (distinct (map fst d) \<and> only_from parent_key d b q
      \<and> (case map_of d b of
            Some (JDict sub) \<Rightarrow> unshadowed (compound parent_key b) sub path q
          | _ \<Rightarrow> True))"

subsection \<open>Concrete stores\<close>

text \<open>A store that answers no request.\<close>

definition dead_store :: world where
  "dead_store =
     \<lparr>page_resp = (\<lambda>page. Inl ''timed out''),
      html_resp = (\<lambda>u. Inl ''timed out''),
      json_resp = (\<lambda>u. Inl ''timed out'')\<rparr>"

text \<open>
  The store of the end-to-end scenario: page 1 lists the product with handle \<^verbatim>\<open>a\<close>, page 2
  is empty, and the detail of \<^verbatim>\<open>a\<close> has one variant.
\<close>

definition product_a :: json where
  "product_a =
     JDict [(''id'', JInt 1), (''title'', JStr ''A''),
            (''variants'', JList [JDict [(''id'', JInt 10), (''price'', JStr ''9.99'')]])]"

definition shop_example :: world where
  "shop_example =
     \<lparr>page_resp = (\<lambda>page. if page = 1 then Inr (JList [JDict [(''handle'', JStr ''a'')]])
                           else Inr (JList [])),
      html_resp = (\<lambda>u. Inr (JStr ''A - Shop'', JStr ''The A'')),
      json_resp = (\<lambda>u. if u = ''https://shop.example/products/a.json'' then Inr product_a
                         else Inl ''404 Client Error'')\<rparr>"

definition shop_globals :: globals where
  "shop_globals =
     \<lparr>base_url = ''https://shop.example'', with_variants = True,
      product_fields = [''id'', ''title'', ''variants_0_id'', ''variants_0_price''],
      variant_fields = [''id'', ''price'']\<rparr>"

text \<open>
  A store with a second product, \<^verbatim>\<open>b\<close>, whose detail has no \<^verbatim>\<open>variants\<close> key.
\<close>

definition product_b :: json where
  "product_b = JDict [(''id'', JInt 2), (''title'', JStr ''B'')]"

definition shop_two :: world where
  "shop_two =
     \<lparr>page_resp = (\<lambda>page. if page = 1
                           then Inr (JList [JDict [(''handle'', JStr ''a'')],
                                            JDict [(''handle'', JStr ''b'')]])
                           else Inr (JList [])),
      html_resp = (\<lambda>u. Inr (JStr ''Shop'', JStr ''All we sell'')),
      json_resp = (\<lambda>u. if u = ''https://shop.example/products/a.json'' then Inr product_a
                         else if u = ''https://shop.example/products/b.json'' then Inr product_b
                         else Inl ''404 Client Error'')\<rparr>"

subsection \<open>Concrete records\<close>

definition record_a :: "(string \<times> json) list" where
  "record_a =
     [(''id'', JInt 7),
      (''a'', JDict [(''b'', JInt 1), (''c'', JInt 2), (''e'', JDict [(''f'', JInt 3)])])]"

definition record_tags :: "(string \<times> json) list" where
  "record_tags = [(''id'', JInt 7), (''tags'', JList [JStr ''x'', JStr ''y'']), (''seen'', JList [])]"

definition record_images :: "(string \<times> json) list" where
  "record_images =
     [(''id'', JInt 7),
      (''images'', JList [JDict [(''src'', JStr ''u1'')], JDict [(''src'', JStr ''u2'')]])]"


section \<open>Flattening\<close>

subsection \<open>\<^verbatim>\<open>dict(items)\<close>\<close>

lemma map_of_fold_update:
  "map_of (fold (\<lambda>kv d. AList.update (fst kv) (snd kv) d) items acc) = map_of acc ++ map_of (rev items)"
  by (induction items arbitrary: acc) (auto simp: update_conv' map_add_def fun_eq_iff split: option.splits)

lemma map_of_py_dict: "map_of (py_dict items) = map_of (rev items)"
  by (simp add: py_dict_def map_of_fold_update)

lemma keys_fold_update:
  "fst ` set (fold (\<lambda>kv d. AList.update (fst kv) (snd kv) d) items acc) = fst ` set acc \<union> fst ` set items"
  by (induction items arbitrary: acc) (auto simp: dom_update)

lemma keys_py_dict: "fst ` set (py_dict items) = fst ` set items"
  by (simp add: py_dict_def keys_fold_update)

lemma distinct_fold_update:
  "distinct (map fst acc) \<Longrightarrow> distinct (map fst (fold (\<lambda>kv d. AList.update (fst kv) (snd kv) d) items acc))"
  by (induction items arbitrary: acc) (auto simp: distinct_update)

lemma distinct_py_dict: "distinct (map fst (py_dict items))"
  by (simp add: py_dict_def distinct_fold_update)

lemma flatten_items_append:
  "flatten_items (a @ b) p sep = flatten_items a p sep @ flatten_items b p sep"
  by (induction a) (auto simp: Let_def)

lemma map_of_rev_distinct: "distinct (map fst xs) \<Longrightarrow> map_of (rev xs) = map_of xs"
  by (metis distinct_rev rev_map map_of_inject_set set_rev)

lemma prefix_cut: "prefix (p @ ''_'' @ r) q \<Longrightarrow> prefix (p @ ''_'') q"
  by (metis append_assoc append_prefixD)

lemma keys_prefix:
  "sep = ''_'' \<Longrightarrow> p \<noteq> [] \<Longrightarrow> q \<in> fst ` set (flatten_dict d p sep) \<Longrightarrow> prefix (p @ ''_'') q"
  "sep = ''_'' \<Longrightarrow> p \<noteq> [] \<Longrightarrow> q \<in> fst ` set (flatten_items d p sep) \<Longrightarrow> prefix (p @ ''_'') q"
  "sep = ''_'' \<Longrightarrow> q \<in> fst ` set (flatten_enum xs i nk sep) \<Longrightarrow>
     \<exists>j. i \<le> j \<and> j < i + length xs \<and> (q = nk @ ''_'' @ str_nat j \<or> prefix (nk @ ''_'' @ str_nat j @ ''_'') q)"
proof (induction d p sep and d p sep and xs i nk sep arbitrary: q and q and q rule: flatten_dict_flatten_items_flatten_enum.induct)
  case (1 d parent_key sep)
  then show ?case by (simp add: keys_py_dict)
next
  case (2 parent_key sep)
  then show ?case by simp
next
  case (3 k v d parent_key sep)
  let ?nk = "parent_key @ ''_'' @ k"
  from "3.prems" consider
      (dict) m where "v = JDict m" "q \<in> fst ` set (flatten_dict m ?nk sep)"
    | (enum) xs where "v = JList xs" "xs \<noteq> []" "is_dict (hd xs)" "q \<in> fst ` set (flatten_enum xs 0 ?nk sep)"
    | (leaf) "q = ?nk"
    | (rest) "q \<in> fst ` set (flatten_items d parent_key sep)"
    by (auto simp: Let_def split: json.splits if_splits)
  then show ?case
  proof cases
    case dict
    have "prefix (?nk @ ''_'') q"
      using "3.IH"(2) [OF _ dict(1) "3.prems"(1) _ dict(2)] "3.prems" by simp
    then show ?thesis
      using prefix_cut [of parent_key "k @ ''_''" q] by simp
  next
    case enum
    from "3.IH"(1) [OF _ enum(1) _ "3.prems"(1) enum(4)] enum(2,3) "3.prems"
    obtain j where "q = ?nk @ ''_'' @ str_nat j \<or> prefix (?nk @ ''_'' @ str_nat j @ ''_'') q"
      by auto
    then show ?thesis
      using prefix_cut [of parent_key "k @ ''_'' @ str_nat j @ ''_''" q] 
      by (auto simp: prefix_def)
  next
    case leaf
    then show ?thesis by (simp add: prefix_def)
  next
    case rest
    then show ?thesis using "3.IH"(3) "3.prems" by simp
  qed
next
  case (4 i new_key sep)
  then show ?case by simp
next
  case (5 item xs i new_key sep)
  from "5.prems" consider
      (dict) m where "item = JDict m" "q \<in> fst ` set (flatten_dict m (new_key @ ''_'' @ str_nat i) sep)"
    | (leaf) "q = new_key @ ''_'' @ str_nat i"
    | (rest) "q \<in> fst ` set (flatten_enum xs (Suc i) new_key sep)"
    by (auto split: json.splits)
  then show ?case
  proof cases
    case dict
    have "prefix ((new_key @ ''_'' @ str_nat i) @ ''_'') q"
      using "5.IH"(1) [OF dict(1) "5.prems"(1) _ dict(2)] by simp
    then have "i \<le> i \<and> i < i + length (item # xs) \<and> prefix (new_key @ ''_'' @ str_nat i @ ''_'') q"
      by simp
    then show ?thesis by blast
  next
    case leaf
    then have "i \<le> i \<and> i < i + length (item # xs) \<and> q = new_key @ ''_'' @ str_nat i"
      by simp
    then show ?thesis by blast
  next
    case rest
    from "5.IH"(2) [OF "5.prems"(1) rest] obtain j where
      "Suc i \<le> j" "j < Suc i + length xs"
      "q = new_key @ ''_'' @ str_nat j \<or> prefix (new_key @ ''_'' @ str_nat j @ ''_'') q"
      by blast
    then have "i \<le> j \<and> j < i + length (item # xs)
       \<and> (q = new_key @ ''_'' @ str_nat j \<or> prefix (new_key @ ''_'' @ str_nat j @ ''_'') q)"
      by simp
    then show ?thesis by blast
  qed
qed

lemma flatten_items_Cons:
  "flatten_items (kv # d) p sep = flatten_items [kv] p sep @ flatten_items d p sep"
  using flatten_items_append [of "[kv]" d p sep] by simp

lemma entry_keys:
  assumes "q \<in> fst ` set (flatten_items [(k, v)] p ''_'')"
  shows "may_emit p (k, v) q"
proof -
  let ?nk = "compound p k"
  from assms consider
      (dict) m where "v = JDict m" "q \<in> fst ` set (flatten_dict m ?nk ''_'')"
    | (enum) xs where "v = JList xs" "q \<in> fst ` set (flatten_enum xs 0 ?nk ''_'')"
    | (leaf) "q = ?nk"
    by (auto simp: Let_def compound_def split: json.splits if_splits)
  then show ?thesis
  proof cases
    case dict
    show ?thesis
    proof (cases "?nk = []")
      case True
      then show ?thesis using dict by (simp add: may_emit_def)
    next
      case False
      then have "prefix (?nk @ ''_'') q"
        using keys_prefix(1) [of "''_''" ?nk q m] dict by simp
      then show ?thesis by (simp add: may_emit_def)
    qed
  next
    case enum
    from keys_prefix(3) [OF _ enum(2)] obtain j where
      "q = ?nk @ ''_'' @ str_nat j \<or> prefix (?nk @ ''_'' @ str_nat j @ ''_'') q"
      by auto
    then have "prefix (?nk @ ''_'') q"
      using prefix_cut [of ?nk "str_nat j @ ''_''" q] by (auto simp: prefix_def)
    then show ?thesis by (simp add: may_emit_def)
  next
    case leaf
    then show ?thesis by (simp add: may_emit_def)
  qed
qed

lemma items_keys:
  "q \<in> fst ` set (flatten_items d p ''_'') \<Longrightarrow> \<exists>kv\<in>set d. may_emit p kv q"
proof (induction d)
  case Nil
  then show ?case by simp
next
  case (Cons kv d)
  obtain k v where kv: "kv = (k, v)" by (cases kv)
  from Cons.prems have "q \<in> fst ` set (flatten_items [(k, v)] p ''_'') \<or> q \<in> fst ` set (flatten_items d p ''_'')"
    unfolding kv by (subst (asm) flatten_items_Cons) auto
  then show ?case
    using entry_keys [of q k v p] Cons.IH kv by auto
qed

lemma map_of_rev_middle:
  assumes "q \<notin> fst ` set a" and "q \<notin> fst ` set b"
  shows "map_of (rev (a @ e @ b)) q = map_of (rev e) q"
proof -
  have "map_of (rev a) q = None" "map_of (rev b) q = None"
    using assms by (simp_all add: map_of_eq_None_iff)
  then show ?thesis
    by (simp add: map_add_def split: option.splits)
qed

lemma flatten_dict_at:
  assumes "distinct (map fst d)" and "map_of d k = Some v" and "only_from p d k q"
  shows "map_of (flatten_dict d p ''_'') q = map_of (flatten_dict [(k, v)] p ''_'') q"
proof -
  have "(k, v) \<in> set d"
    using assms(2) by (rule map_of_SomeD)
  then obtain a b where d: "d = a @ (k, v) # b"
    by (meson split_list)
  have ka: "\<forall>kv\<in>set a. fst kv \<noteq> k" and kb: "\<forall>kv\<in>set b. fst kv \<noteq> k"
    using assms(1) unfolding d by auto
  have na: "q \<notin> fst ` set (flatten_items a p ''_'')"
    using items_keys [of q a p] ka assms(3) unfolding d only_from_def by auto
  have nb: "q \<notin> fst ` set (flatten_items b p ''_'')"
    using items_keys [of q b p] kb assms(3) unfolding d only_from_def by auto
  have split: "flatten_items d p ''_'' =
      flatten_items a p ''_'' @ flatten_items [(k, v)] p ''_'' @ flatten_items b p ''_''"
    unfolding d by (simp only: flatten_items_append flatten_items_Cons [of "(k, v)" b])
  have "map_of (flatten_dict d p ''_'') q = map_of (rev (flatten_items d p ''_'')) q"
    by (simp only: flatten_dict.simps map_of_py_dict)
  also have "\<dots> = map_of (rev (flatten_items [(k, v)] p ''_'')) q"
    unfolding split using na nb by (rule map_of_rev_middle)
  also have "\<dots> = map_of (flatten_dict [(k, v)] p ''_'') q"
    by (simp only: flatten_dict.simps map_of_py_dict)
  finally show ?thesis .
qed

subsection \<open>Indices in keys\<close>

lemma digit_cases: "n < 10 \<Longrightarrow> n \<in> {0, 1, 2, 3, 4, 5, 6, 7, 8, 9::nat}"
  by auto

lemma digit_char_not_sep: "n < 10 \<Longrightarrow> digit_char n \<noteq> CHR ''_''"
  using digit_cases [of n] by (auto simp: digit_char_def)

lemma digit_char_inj: "m < 10 \<Longrightarrow> n < 10 \<Longrightarrow> digit_char m = digit_char n \<Longrightarrow> m = n"
  using digit_cases [of m] digit_cases [of n] by (auto simp: digit_char_def)

lemma str_nat_not_Nil: "str_nat n \<noteq> []"
  by (subst str_nat.simps) simp

lemma str_nat_no_sep: "CHR ''_'' \<notin> set (str_nat n)"
proof (induction n rule: str_nat.induct)
  case (1 n)
  show ?case
  proof (cases "n < 10")
    case True
    then show ?thesis
      using digit_char_not_sep [of n] by (subst str_nat.simps) auto
  next
    case False
    then show ?thesis
      using "1.IH" digit_char_not_sep [of "n mod 10"] by (subst str_nat.simps) auto
  qed
qed

lemma str_nat_inj: "str_nat m = str_nat n \<Longrightarrow> m = n"
proof (induction m arbitrary: n rule: str_nat.induct)
  case (1 m)
  show ?case
  proof (cases "m < 10")
    case m: True
    show ?thesis
    proof (cases "n < 10")
      case True
      then show ?thesis
        using "1.prems" m digit_char_inj [of m n]
        by (subst (asm) str_nat.simps, subst (asm) (2) str_nat.simps) simp
    next
      case False
      then show ?thesis
        using "1.prems" m str_nat_not_Nil [of "n div 10"]
        by (subst (asm) str_nat.simps, subst (asm) (2) str_nat.simps) simp
    qed
  next
    case m: False
    show ?thesis
    proof (cases "n < 10")
      case True
      then show ?thesis
        using "1.prems" m str_nat_not_Nil [of "m div 10"]
        by (subst (asm) str_nat.simps, subst (asm) (2) str_nat.simps) simp
    next
      case False
      have "str_nat (m div 10) @ [digit_char (m mod 10)] = str_nat (n div 10) @ [digit_char (n mod 10)]"
        using "1.prems" m False
        by (subst (asm) str_nat.simps, subst (asm) (2) str_nat.simps) simp
      then have "str_nat (m div 10) = str_nat (n div 10)" "digit_char (m mod 10) = digit_char (n mod 10)"
        by simp_all
      then have "m div 10 = n div 10" "m mod 10 = n mod 10"
        using "1.IH" [OF m] digit_char_inj [of "m mod 10" "n mod 10"] by simp_all
      then show ?thesis
        by (metis div_mult_mod_eq)
    qed
  qed
qed

lemma sep_ends_equal:
  "c \<notin> set a \<Longrightarrow> c \<notin> set b \<Longrightarrow> prefix (a @ [c]) (b @ c # r) \<Longrightarrow> a = b"
proof (induction a arbitrary: b)
  case Nil
  then show ?case by (cases b) auto
next
  case (Cons x a)
  then show ?case by (cases b) auto
qed

lemma index_family_disjoint:
  assumes "prefix (nk @ ''_'' @ str_nat i @ ''_'') q"
    and "q = nk @ ''_'' @ str_nat j \<or> prefix (nk @ ''_'' @ str_nat j @ ''_'') q"
  shows "i = j"
proof -
  from assms(1) obtain r where q: "q = nk @ ''_'' @ str_nat i @ ''_'' @ r"
    by (auto simp: prefix_def)
  from assms(2) show ?thesis
  proof
    assume "q = nk @ ''_'' @ str_nat j"
    then have "str_nat j = str_nat i @ ''_'' @ r"
      using q by simp
    then have "CHR ''_'' \<in> set (str_nat j)"
      by simp
    then show ?thesis
      using str_nat_no_sep by simp
  next
    assume "prefix (nk @ ''_'' @ str_nat j @ ''_'') q"
    then have "prefix (str_nat j @ [CHR ''_'']) (str_nat i @ CHR ''_'' # r)"
      unfolding q by simp
    then have "str_nat j = str_nat i"
      using sep_ends_equal [of "CHR ''_''" "str_nat j" "str_nat i" r] str_nat_no_sep by simp
    then show ?thesis
      using str_nat_inj by simp
  qed
qed

lemma flatten_enum_concat:
  "flatten_enum xs n nk sep =
     concat (map (\<lambda>(i, item). case item of
                     JDict m \<Rightarrow> flatten_dict m (nk @ ''_'' @ str_nat i) sep
                   | _ \<Rightarrow> [(nk @ ''_'' @ str_nat i, item)])
              (enumerate n xs))"
  by (induction xs arbitrary: n) (simp_all del: flatten_dict.simps)

lemma flatten_enum_append:
  "flatten_enum (xs @ ys) n nk sep = flatten_enum xs n nk sep @ flatten_enum ys (n + length xs) nk sep"
  by (induction xs arbitrary: n) (simp_all del: flatten_dict.simps)

lemma map_of_rev_flatten_dict:
  "map_of (rev (flatten_dict m p sep)) = map_of (flatten_dict m p sep)"
  unfolding flatten_dict.simps by (rule map_of_rev_distinct) (rule distinct_py_dict)

lemma flatten_enum_at:
  assumes "i < length xs" and "xs ! i = JDict m"
    and "prefix (nk @ ''_'' @ str_nat i @ ''_'') q"
  shows "map_of (rev (flatten_enum xs 0 nk ''_'')) q
         = map_of (flatten_dict m (nk @ ''_'' @ str_nat i) ''_'') q"
proof -
  let ?F = "flatten_dict m (nk @ ''_'' @ str_nat i) ''_''"
  have xs: "xs = take i xs @ xs ! i # drop (Suc i) xs"
    using assms(1) by (simp add: id_take_nth_drop)
  have len: "length (take i xs) = i" and m: "min (length xs) i = i"
    using assms(1) by simp_all
  have split: "flatten_enum xs 0 nk ''_'' =
      flatten_enum (take i xs) 0 nk ''_'' @ ?F @ flatten_enum (drop (Suc i) xs) (Suc i) nk ''_''"
    by (subst xs) (simp add: flatten_enum_append m assms(2) del: flatten_dict.simps)
  have na: "q \<notin> fst ` set (flatten_enum (take i xs) 0 nk ''_'')"
  proof
    assume "q \<in> fst ` set (flatten_enum (take i xs) 0 nk ''_'')"
    from keys_prefix(3) [OF _ this] obtain j where "j < i"
      "q = nk @ ''_'' @ str_nat j \<or> prefix (nk @ ''_'' @ str_nat j @ ''_'') q"
      using len by auto
    then show False
      using index_family_disjoint [OF assms(3)] by auto
  qed
  have nb: "q \<notin> fst ` set (flatten_enum (drop (Suc i) xs) (Suc i) nk ''_'')"
  proof
    assume "q \<in> fst ` set (flatten_enum (drop (Suc i) xs) (Suc i) nk ''_'')"
    from keys_prefix(3) [OF _ this] obtain j where "Suc i \<le> j"
      "q = nk @ ''_'' @ str_nat j \<or> prefix (nk @ ''_'' @ str_nat j @ ''_'') q"
      by auto
    then show False
      using index_family_disjoint [OF assms(3)] by auto
  qed
  have "map_of (rev (flatten_enum xs 0 nk ''_'')) q = map_of (rev ?F) q"
    unfolding split using na nb by (rule map_of_rev_middle)
  also have "\<dots> = map_of ?F q"
    by (simp only: map_of_rev_flatten_dict)
  finally show ?thesis .
qed

subsection \<open>The entries of a record\<close>

lemma flatten_single_scalar:
  "is_scalar x \<Longrightarrow> flatten_dict [(b, x)] p ''_'' = [(compound p b, x)]"
  by (cases x) (simp_all add: is_scalar_def compound_def py_dict_def)

lemma flatten_single_list:
  "xs = [] \<or> \<not> is_dict (hd xs) \<Longrightarrow>
   flatten_dict [(k, JList xs)] p ''_'' = [(compound p k, JStr (join ''|'' (map py_str xs)))]"
  by (auto simp: compound_def py_dict_def)

lemma flatten_single_dict:
  "map_of (flatten_dict [(k, JDict sub)] p ''_'') = map_of (flatten_dict sub (compound p k) ''_'')"
proof -
  have "flatten_dict [(k, JDict sub)] p ''_'' = py_dict (flatten_dict sub (compound p k) ''_'')"
    by (simp add: compound_def Let_def)
  then show ?thesis
    by (simp only: map_of_py_dict map_of_rev_flatten_dict)
qed

lemma case_dict_entries:
  "is_dict x \<Longrightarrow> (case x of JDict m \<Rightarrow> f m | _ \<Rightarrow> g) = f (entries x)"
  by (cases x) simp_all

lemma entry_items_subset:
  assumes "(k, v) \<in> set d"
  shows "set (flatten_items [(k, v)] p sep) \<subseteq> set (flatten_items d p sep)"
proof -
  from assms obtain a b where d: "d = a @ (k, v) # b"
    by (meson split_list)
  show ?thesis
    unfolding d by (simp only: flatten_items_append flatten_items_Cons [of "(k, v)" b]) auto
qed

lemma product_fields_loop_dicts:
  "\<forall>p\<in>set samples. is_dict p \<Longrightarrow>
   product_fields_loop samples A = Inr (A \<union> (\<Union>p\<in>set samples. set (dict_keys (flatten (entries p)))))"
proof (induction samples arbitrary: A)
  case Nil
  then show ?case by simp
next
  case (Cons p samples)
  then obtain m where "p = JDict m" by (cases p) auto
  then show ?case
    using Cons by (auto simp: Un_assoc)
qed

subsection \<open>Paths through nested records\<close>

lemma compound_join:
  "p \<noteq> [] \<Longrightarrow> foldl compound p path = join ''_'' (p # path)"
proof (induction path arbitrary: p)
  case Nil
  then show ?case by simp
next
  case (Cons b path)
  have c: "compound p b = p @ ''_'' @ b"
    using Cons.prems by (simp add: compound_def)
  have "foldl compound p (b # path) = join ''_'' ((p @ ''_'' @ b) # path)"
    using Cons.IH [of "p @ ''_'' @ b"] by (simp add: c)
  also have "\<dots> = join ''_'' (p # b # path)"
    by (cases path) simp_all
  finally show ?case .
qed

lemma leaf_at_path:
  "leaf_at d path = Some x \<Longrightarrow> unshadowed p d path (foldl compound p path) \<Longrightarrow>
   p \<noteq> [] \<or> hd path \<noteq> [] \<Longrightarrow>
   map_of (flatten_dict d p ''_'') (foldl compound p path) = Some x"
proof (induction d path arbitrary: p rule: leaf_at.induct)
  case (1 d)
  then show ?case by simp
next
  case (2 d b)
  from "2.prems"(1) have x: "map_of d b = Some x" "is_scalar x"
    by (auto split: option.splits if_splits)
  have "map_of (flatten_dict d p ''_'') (compound p b) = map_of (flatten_dict [(b, x)] p ''_'') (compound p b)"
    using "2.prems"(2) x(1) by (intro flatten_dict_at) simp_all
  then show ?case
    using flatten_single_scalar [OF x(2), of b p] by simp
next
  case (3 d b c path)
  from "3.prems"(1) obtain sub where sub: "map_of d b = Some (JDict sub)"
    "leaf_at sub (c # path) = Some x"
    by (auto split: option.splits json.splits)
  let ?q = "foldl compound p (b # c # path)"
  have ne: "compound p b \<noteq> []"
    using "3.prems"(3) by (auto simp: compound_def)
  have "map_of (flatten_dict d p ''_'') ?q = map_of (flatten_dict [(b, JDict sub)] p ''_'') ?q"
    using "3.prems"(2) sub(1) by (intro flatten_dict_at) simp_all
  also have "\<dots> = map_of (flatten_dict sub (compound p b) ''_'') ?q"
    by (simp only: flatten_single_dict)
  also have "\<dots> = Some x"
    using "3.IH" [of "JDict sub" sub "compound p b"] sub "3.prems"(2) ne by simp
  finally show ?case .
qed

section \<open>What flattening gives for each kind of value\<close>

lemmas emit_defs = only_from_def may_emit_def compound_def

text \<open>
  Claim C3, as amended. Let \<open>k\<close> be a non-empty key of a record, bound to a nested record.
  Every scalar that the nested record has at the end of a path of keys appears in the
  result under \<open>k\<close> and the keys of the path joined with underscores, provided that at
  each record along the path no other entry can produce that key. At every key that no
  other entry of the record can produce, the result has exactly what flattening the
  nested record below the prefix \<open>k\<close> gives; each key of that flattening starts with \<open>k\<close>
  and an underscore, so \<open>k\<close> itself is not a key of the result unless another entry
  produces it.
\<close>

theorem nested_record_flattened:
  assumes "distinct (map fst d)" and "map_of d k = Some (JDict sub)" and "k \<noteq> []"
  shows "(\<forall>path x. leaf_at sub path = Some x
            \<and> unshadowed [] d (k # path) (join ''_'' (k # path))
          \<longrightarrow> map_of (flatten d) (join ''_'' (k # path)) = Some x)
    \<and> (\<forall>q. only_from [] d k q \<longrightarrow> map_of (flatten d) q = map_of (flatten_dict sub k ''_'') q)
    \<and> (\<forall>q\<in>set (dict_keys (flatten_dict sub k ''_'')). prefix (k @ ''_'') q \<and> q \<noteq> k)
    \<and> (only_from [] d k k \<longrightarrow> k \<notin> set (dict_keys (flatten d)))"
proof -
  have at: "map_of (flatten d) q = map_of (flatten_dict sub k ''_'') q" if "only_from [] d k q" for q
    using flatten_dict_at [OF assms(1,2) that] flatten_single_dict [of k sub "[]"]
    by (simp add: flatten_def compound_def)
  have keys: "prefix (k @ ''_'') q \<and> q \<noteq> k" if "q \<in> set (dict_keys (flatten_dict sub k ''_''))" for q
  proof -
    have "prefix (k @ ''_'') q"
      using keys_prefix(1) [of "''_''" k q sub] that assms(3) by (simp add: dict_keys_def)
    then show ?thesis by (auto simp: prefix_def)
  qed
  have nokey: "k \<notin> set (dict_keys (flatten d))" if "only_from [] d k k"
  proof -
    have "map_of (flatten_dict sub k ''_'') k = None"
      using keys [of k] by (auto simp: map_of_eq_None_iff dict_keys_def)
    then have "map_of (flatten d) k = None"
      using at [OF that] by simp
    then show ?thesis
      by (simp add: map_of_eq_None_iff dict_keys_def)
  qed
  have leaf: "map_of (flatten d) (join ''_'' (k # path)) = Some x"
    if "leaf_at sub path = Some x" "unshadowed [] d (k # path) (join ''_'' (k # path))" for path x
  proof -
    have "path \<noteq> []"
      using that(1) by auto
    then obtain c rest where path: "path = c # rest"
      by (cases path) auto
    have q: "foldl compound [] (k # path) = join ''_'' (k # path)"
      using compound_join [OF assms(3), of path] by (simp add: compound_def)
    have "leaf_at d (k # path) = Some x"
      using that(1) assms(2) by (simp add: path)
    moreover have "unshadowed [] d (k # path) (foldl compound [] (k # path))"
      using that(2) by (simp only: q)
    ultimately have "map_of (flatten_dict d [] ''_'') (foldl compound [] (k # path)) = Some x"
      using assms(3) by (intro leaf_at_path) simp_all
    then show ?thesis
      by (simp only: q flatten_def)
  qed
  show ?thesis
    using at keys nokey leaf by blast
qed

theorem nested_record_flattened_witness:
  "''a'' \<notin> set (dict_keys (flatten record_a))
   \<and> map_of (flatten record_a) ''a_b'' = Some (JInt 1)
   \<and> map_of (flatten record_a) ''a_c'' = Some (JInt 2)
   \<and> map_of (flatten record_a) ''a_e_f'' = Some (JInt 3)"
proof -
  let ?sub = "[(''b'', JInt 1), (''c'', JInt 2), (''e'', JDict [(''f'', JInt 3)])]"
  have h1: "distinct (map fst record_a)"
    by (simp add: record_a_def)
  have h2: "map_of record_a ''a'' = Some (JDict ?sub)"
    by (simp add: record_a_def)
  have h3: "''a'' \<noteq> []"
    by simp
  have o: "only_from [] record_a ''a'' ''a''"
    by (simp add: emit_defs record_a_def)
  have l: "leaf_at ?sub [''b''] = Some (JInt 1)" "leaf_at ?sub [''c''] = Some (JInt 2)"
    "leaf_at ?sub [''e'', ''f''] = Some (JInt 3)"
    by (simp_all add: is_scalar_def)
  have u: "unshadowed [] record_a [''a'', ''b''] (join ''_'' [''a'', ''b''])"
    "unshadowed [] record_a [''a'', ''c''] (join ''_'' [''a'', ''c''])"
    "unshadowed [] record_a [''a'', ''e'', ''f''] (join ''_'' [''a'', ''e'', ''f''])"
    by (simp_all add: emit_defs record_a_def)
  from nested_record_flattened [OF h1 h2 h3]
  have leaf: "\<And>path x. leaf_at ?sub path = Some x \<Longrightarrow>
      unshadowed [] record_a (''a'' # path) (join ''_'' (''a'' # path)) \<Longrightarrow>
      map_of (flatten record_a) (join ''_'' (''a'' # path)) = Some x"
    and nokey: "only_from [] record_a ''a'' ''a'' \<Longrightarrow> ''a'' \<notin> set (dict_keys (flatten record_a))"
    by blast+
  show ?thesis
    using nokey [OF o] leaf [OF l(1) u(1)] leaf [OF l(2) u(2)] leaf [OF l(3) u(3)]
    by simp
qed

text \<open>
  Claim C3 as stated fails: here the key \<^verbatim>\<open>a_b\<close> is bound to a nested record, and the
  result has the key \<^verbatim>\<open>a_b\<close>, produced by the leaf \<^verbatim>\<open>b\<close> of the entry \<^verbatim>\<open>a\<close>.
\<close>

theorem nested_record_flattened_counterexample:
  "flatten [(''a_b'', JDict [(''x'', JInt 1)]), (''a'', JDict [(''b'', JInt 5)])]
   = [(''a_b_x'', JInt 1), (''a_b'', JInt 5)]"
  by (simp add: flatten_def py_dict_def)

text \<open>
  Claim C4, as amended. A key \<open>k\<close> of a record bound to a sequence of scalars is mapped
  to the string forms of the elements joined with \<^verbatim>\<open>|\<close>, which is the empty string for the
  empty sequence, provided no other entry of the record can produce the key \<open>k\<close>.
\<close>

theorem scalar_list_joined:
  assumes "distinct (map fst d)" and "map_of d k = Some (JList xs)"
    and "\<forall>x\<in>set xs. is_scalar x" and "only_from [] d k k"
  shows "map_of (flatten d) k = Some (JStr (join ''|'' (map py_str xs)))"
proof -
  have "xs = [] \<or> \<not> is_dict (hd xs)"
    using assms(3) by (cases xs) (auto simp: is_scalar_def)
  then have "flatten_dict [(k, JList xs)] [] ''_'' = [(k, JStr (join ''|'' (map py_str xs)))]"
    using flatten_single_list [of xs k "[]"] by (simp add: compound_def)
  then show ?thesis
    using flatten_dict_at [OF assms(1,2,4)] by (simp add: flatten_def)
qed

theorem scalar_list_joined_witness:
  "map_of (flatten record_tags) ''tags'' = Some (JStr ''x|y'')
   \<and> map_of (flatten record_tags) ''seen'' = Some (JStr '''')"
proof -
  have h1: "distinct (map fst record_tags)"
    by (simp add: record_tags_def)
  have h2: "map_of record_tags ''tags'' = Some (JList [JStr ''x'', JStr ''y''])"
    and h2': "map_of record_tags ''seen'' = Some (JList [])"
    by (simp_all add: record_tags_def)
  have h3: "\<forall>x\<in>set [JStr ''x'', JStr ''y'']. is_scalar x" and h3': "\<forall>x\<in>set []. is_scalar x"
    by (simp_all add: is_scalar_def)
  have h4: "only_from [] record_tags ''tags'' ''tags''"
    and h4': "only_from [] record_tags ''seen'' ''seen''"
    by (simp_all add: emit_defs record_tags_def)
  show ?thesis
    using scalar_list_joined [OF h1 h2 h3 h4] scalar_list_joined [OF h1 h2' h3' h4']
    by (simp add: py_str_def)
qed

text \<open>
  Claim C4 as stated fails: \<^verbatim>\<open>image_src\<close> is bound to a sequence of two strings, and the
  result maps it to the value of the leaf \<^verbatim>\<open>src\<close> of the later entry \<^verbatim>\<open>image\<close>.
\<close>

theorem scalar_list_joined_counterexample:
  "flatten [(''image_src'', JList [JStr ''u1'', JStr ''u2'']), (''image'', JDict [(''src'', JStr ''x'')])]
   = [(''image_src'', JStr ''x'')]"
  by (simp add: flatten_def py_dict_def)

text \<open>
  Claim C5. For a key \<open>k\<close> bound to a non-empty sequence of records, the items of the
  entry are those of flattening the element at each index \<open>j\<close> below the prefix \<open>k_j\<close>,
  in order. Every key of the family of an index \<open>i\<close> is a key of the result, and at a key
  of that family which no other entry of the record can produce the result has the value
  of the element at \<open>i\<close>.
\<close>

theorem list_of_records_by_index:
  assumes "distinct (map fst d)" and "map_of d k = Some (JList xs)"
    and "\<forall>x\<in>set xs. is_dict x" and "i < length xs"
  shows "flatten_items [(k, JList xs)] [] ''_'' =
           concat (map (\<lambda>(j, x). flatten_dict (entries x) (k @ ''_'' @ str_nat j) ''_'')
                    (enumerate 0 xs))
    \<and> set (dict_keys (flatten_dict (entries (xs ! i)) (k @ ''_'' @ str_nat i) ''_''))
        \<subseteq> set (dict_keys (flatten d))
    \<and> (\<forall>q. prefix (k @ ''_'' @ str_nat i @ ''_'') q \<and> only_from [] d k q \<longrightarrow>
           map_of (flatten d) q
           = map_of (flatten_dict (entries (xs ! i)) (k @ ''_'' @ str_nat i) ''_'') q)"
proof -
  let ?F = "\<lambda>j x. flatten_dict (entries x) (k @ ''_'' @ str_nat j) ''_''"
  have hd: "xs \<noteq> []" "is_dict (hd xs)"
    using assms(3,4) by (cases xs; auto)+
  have "is_dict (xs ! i)"
    using assms(3,4) by simp
  then obtain m where m: "xs ! i = JDict m"
    by (cases "xs ! i") simp_all
  have items: "flatten_items [(k, JList xs)] [] ''_'' = flatten_enum xs 0 k ''_''"
    using hd by simp
  have "(case x of JDict m \<Rightarrow> flatten_dict m (k @ ''_'' @ str_nat j) ''_''
            | _ \<Rightarrow> [(k @ ''_'' @ str_nat j, x)]) = ?F j x"
    if "(j, x) \<in> set (enumerate 0 xs)" for j x
  proof -
    have "is_dict x"
      using that assms(3) by (auto simp: in_set_enumerate_eq)
    then show ?thesis
      by (rule case_dict_entries)
  qed
  then have c1: "flatten_items [(k, JList xs)] [] ''_'' = concat (map (\<lambda>(j, x). ?F j x) (enumerate 0 xs))"
    unfolding items flatten_enum_concat
    by (intro arg_cong [where f = concat] map_cong) auto
  have "(i, xs ! i) \<in> set (enumerate 0 xs)"
    using assms(4) by (simp add: in_set_enumerate_eq)
  then have "set (?F i (xs ! i)) \<subseteq> set (flatten_items [(k, JList xs)] [] ''_'')"
    unfolding c1 by (auto simp del: flatten_dict.simps)
  also have "\<dots> \<subseteq> set (flatten_items d [] ''_'')"
    using assms(2) by (intro entry_items_subset map_of_SomeD)
  finally have "fst ` set (?F i (xs ! i)) \<subseteq> fst ` set (flatten_items d [] ''_'')"
    by (rule image_mono)
  then have c2: "set (dict_keys (?F i (xs ! i))) \<subseteq> set (dict_keys (flatten d))"
    by (simp add: dict_keys_def flatten_def keys_py_dict del: flatten_dict.simps)
      (simp add: keys_py_dict)
  have c3: "map_of (flatten d) q = map_of (?F i (xs ! i)) q"
    if "prefix (k @ ''_'' @ str_nat i @ ''_'') q" "only_from [] d k q" for q
  proof -
    have "map_of (flatten d) q = map_of (flatten_dict [(k, JList xs)] [] ''_'') q"
      unfolding flatten_def using assms(1,2) that(2) by (rule flatten_dict_at)
    also have "\<dots> = map_of (rev (flatten_enum xs 0 k ''_'')) q"
      by (simp only: flatten_dict.simps map_of_py_dict items)
    also have "\<dots> = map_of (flatten_dict m (k @ ''_'' @ str_nat i) ''_'') q"
      using assms(4) m that(1) by (rule flatten_enum_at)
    finally show ?thesis
      by (simp add: m)
  qed
  show ?thesis
    using c1 c2 c3 by blast
qed

theorem list_of_records_by_index_witness:
  "flatten_items [(''images'', JList [JDict [(''src'', JStr ''u1'')], JDict [(''src'', JStr ''u2'')]])] [] ''_''
     = [(''images_0_src'', JStr ''u1''), (''images_1_src'', JStr ''u2'')]
   \<and> map_of (flatten record_images) ''images_0_src'' = Some (JStr ''u1'')
   \<and> map_of (flatten record_images) ''images_1_src'' = Some (JStr ''u2'')"
proof -
  let ?xs = "[JDict [(''src'', JStr ''u1'')], JDict [(''src'', JStr ''u2'')]]"
  have h1: "distinct (map fst record_images)"
    by (simp add: record_images_def)
  have h2: "map_of record_images ''images'' = Some (JList ?xs)"
    by (simp add: record_images_def)
  have h3: "\<forall>x\<in>set ?xs. is_dict x"
    by simp
  have i: "(0::nat) < length ?xs" "(1::nat) < length ?xs"
    by simp_all
  have n: "str_nat 0 = ''0''" "str_nat (Suc 0) = ''1''"
    by code_simp+
  have o: "only_from [] record_images ''images'' ''images_0_src''"
    "only_from [] record_images ''images'' ''images_1_src''"
    by (simp_all add: emit_defs record_images_def)
  show ?thesis
    using list_of_records_by_index [OF h1 h2 h3 i(1)] list_of_records_by_index [OF h1 h2 h3 i(2)] o
    by (simp add: n py_dict_def)
qed



text \<open>
  Claim C6. For sample records, \<^verbatim>\<open>get_all_product_fields\<close> returns a list that has exactly
  the keys of the flattened samples, has no duplicates and is sorted.
\<close>

theorem discovery_sorted_union:
  assumes "\<forall>p\<in>set samples. is_dict p"
  shows "\<exists>fs. get_all_product_fields samples = Inr fs
     \<and> set fs = (\<Union>p\<in>set samples. set (dict_keys (flatten (entries p))))
     \<and> distinct fs \<and> sorted fs"
  using product_fields_loop_dicts [OF assms, of "{}"]
  by (simp add: get_all_product_fields_def)

theorem discovery_sorted_union_witness:
  "get_all_product_fields [JDict [(''b'', JInt 2)], JDict [(''a'', JInt 1), (''b'', JInt 3)]]
   = Inr [''a'', ''b'']"
proof -
  have h: "\<forall>p\<in>set [JDict [(''b'', JInt 2)], JDict [(''a'', JInt 1), (''b'', JInt 3)]]. is_dict p"
    by simp
  have e: "get_all_product_fields [JDict [(''b'', JInt 2)], JDict [(''a'', JInt 1), (''b'', JInt 3)]]
   = Inr [''a'', ''b'']"
    by code_simp
  show ?thesis
    using discovery_sorted_union [OF h] e by simp
qed

section \<open>Unresolved items and an empty first page\<close>

text \<open>
  Claim C7. When the first page cannot be fetched or has no records, the run stops with
  exit status 1 after printing the error line: the CSV file is never opened, so neither a
  header nor a row is written, and the only request sent is the one for page 1.
\<close>

theorem empty_first_page_aborts:
  assumes "website_url a = Some url0" and "url0 \<noteq> []" and "page_empty w 1"
  shows "\<exists>r. main w a = Some r \<and> status r = Exit 1 \<and> csv_header r = None
           \<and> rows (final r) = [] \<and> requests (final r) = [GetPage 1]
           \<and> last (out (final r)) = NoProductsFound"
  using assms
  by (auto simp: main_def page_empty_def get_page_def print_def send_def init_state_def
      split: sum.splits)

theorem empty_first_page_aborts_witness:
  "website_url \<lparr>website_url = Some ''https://shop.example'', variants = True, debug = False\<rparr>
     = Some ''https://shop.example''
   \<and> ''https://shop.example'' \<noteq> [] \<and> page_empty dead_store 1
   \<and> (\<exists>r. main dead_store
              \<lparr>website_url = Some ''https://shop.example'', variants = True, debug = False\<rparr>
            = Some r
          \<and> status r = Exit 1 \<and> csv_header r = None \<and> rows (final r) = []
          \<and> requests (final r) = [GetPage 1] \<and> last (out (final r)) = NoProductsFound)"
proof -
  have h: "page_empty dead_store 1"
    by (simp add: page_empty_def dead_store_def)
  show ?thesis
    using h empty_first_page_aborts
      [of "\<lparr>website_url = Some ''https://shop.example'', variants = True, debug = False\<rparr>"
          "''https://shop.example''" dead_store]
    by simp
qed

text \<open>
  Claim C9. When the detail request of an item fails, \<^verbatim>\<open>get_complete_product_data\<close> returns
  \<^verbatim>\<open>None\<close>, and the loop body ends normally for that item with no row written and both
  counters unchanged; the loop over the page goes on with the next item from there.
\<close>

theorem failed_detail_skips_item:
  assumes "product_url_of (base_url g) product = Inr product_url"
    and "json_resp w (product_url @ ''.json'') = Inl e"
  shows "fst (get_complete_product_data w product_url st0) = JNull
    \<and> (\<exists>st'. process_product w g product st = Inr st'
          \<and> rows st' = rows st \<and> total_products st' = total_products st
          \<and> total_variants st' = total_variants st
          \<and> product_loop w g (product # products) st = product_loop w g products st')"
  using assms
  by (auto simp: process_product_def get_complete_product_data_def get_tags_from_product_def
      print_def send_def split: sum.splits prod.splits)

theorem failed_detail_skips_item_witness:
  "product_url_of (base_url shop_globals) (JDict [(''handle'', JStr ''gone'')])
     = Inr ''https://shop.example/products/gone''
   \<and> json_resp shop_example (''https://shop.example/products/gone'' @ ''.json'')
     = Inl ''404 Client Error''
   \<and> fst (get_complete_product_data shop_example ''https://shop.example/products/gone'' init_state)
     = JNull
   \<and> (\<exists>st'. process_product shop_example shop_globals (JDict [(''handle'', JStr ''gone'')]) init_state
              = Inr st'
          \<and> rows st' = rows init_state \<and> total_products st' = total_products init_state
          \<and> total_variants st' = total_variants init_state
          \<and> product_loop shop_example shop_globals
               [JDict [(''handle'', JStr ''gone'')], JDict [(''handle'', JStr ''a'')]] init_state
            = product_loop shop_example shop_globals [JDict [(''handle'', JStr ''a'')]] st')"
proof -
  have h1: "product_url_of (base_url shop_globals) (JDict [(''handle'', JStr ''gone'')])
              = Inr ''https://shop.example/products/gone''"
    by (simp add: product_url_of_def shop_globals_def)
  have h2: "json_resp shop_example (''https://shop.example/products/gone'' @ ''.json'')
              = Inl ''404 Client Error''"
    by (simp add: shop_example_def)
  show ?thesis
    using h1 h2 failed_detail_skips_item [OF h1 h2, of init_state init_state
        "[JDict [(''handle'', JStr ''a'')]]"]
    by simp
qed

lemma variant_loop_dicts:
  "\<forall>v\<in>set vs. is_dict v \<Longrightarrow>
   \<exists>st'. variant_loop g lead fp vs st = Inr st'
     \<and> rows st' = rows st @ map (\<lambda>v. lead @ field_values (product_fields g) fp
                                      @ field_values (variant_fields g) (flatten (entries v))) vs
     \<and> total_variants st' = total_variants st + length vs
     \<and> total_products st' = total_products st"
proof (induction vs arbitrary: st)
  case Nil
  then show ?case by simp
next
  case (Cons v vs)
  then obtain m where v: "v = JDict m" by (cases v) auto
  from Cons.prems have "\<forall>v\<in>set vs. is_dict v" by simp
  from Cons.IH [OF this, of "count_variant (writerow (lead @ field_values (product_fields g) fp
                   @ field_values (variant_fields g) (flatten m)) st)"]
  show ?case by (auto simp: v count_variant_def writerow_def)
qed

text \<open>
  Claim C2. In variant mode, for a product whose detail is a record with a list of \<open>N\<close>
  variant records under \<^verbatim>\<open>variants\<close>, the loop body writes exactly \<open>N\<close> rows (none when the
  list is empty) and counts \<open>N\<close> variants. Every one of these rows starts with the same
  three leading values and the same product values; what follows in the row is taken from
  the variant alone.
\<close>

theorem variant_rows:
  assumes "with_variants g"
    and "product_url_of (base_url g) product = Inr product_url"
    and "json_resp w (product_url @ ''.json'') = Inr (JDict d)"
    and "map_of d ''variants'' = Some (JList vs)"
    and "\<forall>v\<in>set vs. is_dict v"
  shows "\<exists>st' new lead. process_product w g product st = Inr st'
     \<and> rows st' = rows st @ new \<and> length new = length vs
     \<and> total_variants st' = total_variants st + length vs
     \<and> length lead = 3
     \<and> (\<forall>i<length vs.
           take (3 + length (product_fields g)) (new ! i)
             = lead @ field_values (product_fields g) (flatten d)
         \<and> drop (3 + length (product_fields g)) (new ! i)
             = field_values (variant_fields g) (flatten (entries (vs ! i))))"
proof -
  obtain title description st1 where tags:
    "get_tags_from_product w product_url (print (Scraping product_url) st) = ((title, description), st1)"
    by (metis surj_pair)
  let ?st2 = "send (GetJson (product_url @ ''.json'')) st1"
  let ?lead = "[JStr product_url, title, description]"
  have d: "d \<noteq> []" "''variants'' \<in> set (dict_keys d)"
    using assms(4) by (auto simp: dict_keys_def dest: map_of_SomeD intro: rev_image_eqI)
  from variant_loop_dicts [OF assms(5), of g ?lead "flatten d" ?st2]
  obtain st3 where st3: "variant_loop g ?lead (flatten d) vs ?st2 = Inr st3"
    "rows st3 = rows ?st2 @ map (\<lambda>v. ?lead @ field_values (product_fields g) (flatten d)
                                      @ field_values (variant_fields g) (flatten (entries v))) vs"
    "total_variants st3 = total_variants ?st2 + length vs"
    by blast
  have st1: "rows st1 = rows st" "total_variants st1 = total_variants st"
    using tags by (auto simp: get_tags_from_product_def print_def send_def split: sum.splits)
  have run: "process_product w g product st = Inr (count_product st3)"
    using assms(1-4) tags d st3(1)
    by (simp add: process_product_def get_complete_product_data_def)
  have len: "length (field_values (product_fields g) (flatten d)) = length (product_fields g)"
    by (simp add: field_values_def)
  let ?P = "?lead @ field_values (product_fields g) (flatten d)"
  have n: "3 + length (product_fields g) = length ?P"
    by (simp add: len)
  have cut: "take (3 + length (product_fields g)) (?P @ ys) = ?P"
    "drop (3 + length (product_fields g)) (?P @ ys) = ys" for ys
    unfolding n by simp_all
  let ?new = "map (\<lambda>v. ?P @ field_values (variant_fields g) (flatten (entries v))) vs"
  have "process_product w g product st = Inr (count_product st3)
     \<and> rows (count_product st3) = rows st @ ?new \<and> length ?new = length vs
     \<and> total_variants (count_product st3) = total_variants st + length vs
     \<and> length ?lead = 3
     \<and> (\<forall>i<length vs.
           take (3 + length (product_fields g)) (?new ! i) = ?P
         \<and> drop (3 + length (product_fields g)) (?new ! i)
             = field_values (variant_fields g) (flatten (entries (vs ! i))))"
    using run st3(2,3) st1 cut by (simp add: count_product_def send_def)
  then show ?thesis by blast
qed

theorem variant_rows_witness:
  "with_variants shop_globals
   \<and> product_url_of (base_url shop_globals) (JDict [(''handle'', JStr ''a'')])
       = Inr ''https://shop.example/products/a''
   \<and> json_resp shop_example (''https://shop.example/products/a'' @ ''.json'')
       = Inr (JDict (entries product_a))
   \<and> map_of (entries product_a) ''variants''
       = Some (JList [JDict [(''id'', JInt 10), (''price'', JStr ''9.99'')]])
   \<and> (\<exists>st' new lead.
         process_product shop_example shop_globals (JDict [(''handle'', JStr ''a'')]) init_state
           = Inr st'
       \<and> rows st' = rows init_state @ new \<and> length new = 1
       \<and> total_variants st' = total_variants init_state + 1
       \<and> length lead = 3
       \<and> take (3 + length (product_fields shop_globals)) (new ! 0)
           = lead @ field_values (product_fields shop_globals) (flatten (entries product_a))
       \<and> drop (3 + length (product_fields shop_globals)) (new ! 0)
           = field_values (variant_fields shop_globals)
               (flatten [(''id'', JInt 10), (''price'', JStr ''9.99'')]))"
proof -
  have h1: "with_variants shop_globals"
    by (simp add: shop_globals_def)
  have h2: "product_url_of (base_url shop_globals) (JDict [(''handle'', JStr ''a'')])
       = Inr ''https://shop.example/products/a''"
    by (simp add: product_url_of_def shop_globals_def)
  have h3: "json_resp shop_example (''https://shop.example/products/a'' @ ''.json'')
       = Inr (JDict (entries product_a))"
    by (simp add: shop_example_def product_a_def)
  have h4: "map_of (entries product_a) ''variants''
       = Some (JList [JDict [(''id'', JInt 10), (''price'', JStr ''9.99'')]])"
    by (simp add: product_a_def)
  have h5: "\<forall>v\<in>set [JDict [(''id'', JInt 10), (''price'', JStr ''9.99'')]]. is_dict v"
    by simp
  show ?thesis
    using h1 h2 h3 h4 h5 variant_rows [OF h1 h2 h3 h4 h5, of init_state]
    by simp
qed

lemma get_page_truthy: "truthy (fst (get_page w page st)) \<longleftrightarrow> \<not> page_empty w page"
  by (simp add: get_page_def page_empty_def split: sum.splits)

lemma get_page_requests:
  "pages_requested (snd (get_page w page st)) = pages_requested st @ [page]"
  by (simp add: get_page_def pages_requested_def print_def send_def split: sum.splits)

lemma page_loop_upto:
  assumes "\<forall>p. page \<le> p \<and> p < page + k \<longrightarrow> \<not> page_empty w p"
    and "page_empty w (page + k)"
  shows "page_loop w g page (fst (get_page w page st)) (snd (get_page w page st))
         = Some (case process_pages w g [page..<page + k] st of
                   Inl x \<Rightarrow> Inl x
                 | Inr st' \<Rightarrow> Inr (snd (get_page w (page + k) st')))"
  using assms
proof (induction k arbitrary: page st)
  case 0
  then show ?case
    by (subst page_loop.simps) (simp add: get_page_truthy)
next
  case (Suc k)
  define rest where "rest = [Suc page..<Suc page + k]"
  define n where "n = Suc page + k"
  have t: "truthy (fst (get_page w page st))"
    using Suc.prems(1) by (simp add: get_page_truthy)
  have ih: "page_loop w g (Suc page) (fst (get_page w (Suc page) st')) (snd (get_page w (Suc page) st'))
         = Some (case process_pages w g rest st' of
                   Inl x \<Rightarrow> Inl x
                 | Inr st'' \<Rightarrow> Inr (snd (get_page w n st'')))" for st'
    unfolding rest_def n_def using Suc.prems by (intro Suc.IH) auto
  have l: "[page..<n] = page # rest" and n: "page + Suc k = n"
    by (simp_all add: upt_rec rest_def n_def)
  obtain products st1 where gp: "get_page w page st = (products, st1)"
    by (cases "get_page w page st")
  have t': "truthy products"
    using t gp by simp
  have step: "page_loop w g (Suc page) products' st'' = 
     page_loop w g (Suc page) (fst (get_page w (Suc page) st2)) (snd (get_page w (Suc page) st2))"
    if "get_page w (Suc page) st2 = (products', st'')" for products' st'' st2
    using that by simp
  show ?case
  proof (cases "py_iter products")
    case (Inl e)
    then show ?thesis
      unfolding n l by (subst page_loop.simps) (simp add: gp t')
  next
    case (Inr items)
    show ?thesis
    proof (cases "product_loop w g items st1")
      case (Inl x)
      then show ?thesis
        unfolding n l by (subst page_loop.simps) (simp add: gp t' Inr)
    next
      case st2: (Inr st2)
      obtain products' st'' where gp': "get_page w (Suc page) st2 = (products', st'')"
        by (cases "get_page w (Suc page) st2")
      show ?thesis
        unfolding n l using ih [of st2]
        by (subst page_loop.simps) (simp add: gp gp' t' Inr st2)
    qed
  qed
qed

lemma variant_loop_requests:
  "requests (reached (variant_loop g lead fp vs st)) = requests st"
  by (induction vs arbitrary: st) (auto simp: count_variant_def writerow_def split: json.splits)

lemma process_product_pages:
  "pages_requested (reached (process_product w g product st)) = pages_requested st"
proof -
  have v: "variant_loop g lead fp vs s = r \<Longrightarrow> pages_requested (reached r) = pages_requested s"
    for lead fp vs s r
    using variant_loop_requests [of g lead fp vs s] by (simp add: pages_requested_def)
  show ?thesis
    by (auto simp: process_product_def get_tags_from_product_def get_complete_product_data_def
        pages_requested_def print_def send_def count_product_def writerow_def Let_def
        split: sum.splits prod.splits json.splits dest!: v)
qed


lemma product_loop_pages:
  "pages_requested (reached (product_loop w g products st)) = pages_requested st"
proof (induction products arbitrary: st)
  case Nil
  then show ?case by simp
next
  case (Cons product products)
  show ?case
  proof (cases "process_product w g product st")
    case (Inl x)
    then show ?thesis
      using process_product_pages [of w g product st] by simp
  next
    case (Inr st')
    then show ?thesis
      using process_product_pages [of w g product st] Cons.IH [of st'] by simp
  qed
qed

lemma process_pages_requested:
  "(\<exists>s. process_pages w g pages st = Inr s
        \<and> pages_requested s = pages_requested st @ pages)
   \<or> (\<exists>e s k. process_pages w g pages st = Inl (e, s) \<and> 1 \<le> k \<and> k \<le> length pages
        \<and> pages_requested s = pages_requested st @ take k pages)"
proof (induction pages arbitrary: st)
  case Nil
  then show ?case by simp
next
  case (Cons page pages)
  obtain products st1 where gp: "get_page w page st = (products, st1)"
    by (cases "get_page w page st")
  have r1: "pages_requested st1 = pages_requested st @ [page]"
    using get_page_requests [of w page st] gp by simp
  show ?case
  proof (cases "py_iter products")
    case (Inl e)
    have "process_pages w g (page # pages) st = Inl (e, st1) \<and> (1::nat) \<le> 1
        \<and> 1 \<le> length (page # pages)
        \<and> pages_requested st1 = pages_requested st @ take 1 (page # pages)"
      using gp Inl r1 by simp
    then show ?thesis by blast
  next
    case (Inr items)
    show ?thesis
    proof (cases "product_loop w g items st1")
      case (Inl x)
      obtain e s where x: "x = (e, s)" by (cases x)
      have "pages_requested s = pages_requested st1"
        using product_loop_pages [of w g items st1] Inl x by simp
      then have "process_pages w g (page # pages) st = Inl (e, s) \<and> (1::nat) \<le> 1
        \<and> 1 \<le> length (page # pages)
        \<and> pages_requested s = pages_requested st @ take 1 (page # pages)"
        using gp Inr Inl x r1 by simp
      then show ?thesis by blast
    next
      case st2: (Inr st2)
      have r2: "pages_requested st2 = pages_requested st @ [page]"
        using product_loop_pages [of w g items st1] st2 r1 by simp
      have eq: "process_pages w g (page # pages) st = process_pages w g pages st2"
        using gp Inr st2 by simp
      from Cons.IH [of st2] show ?thesis
      proof
        assume "\<exists>s. process_pages w g pages st2 = Inr s
           \<and> pages_requested s = pages_requested st2 @ pages"
        then show ?thesis using eq r2 by auto
      next
        assume "\<exists>e s k. process_pages w g pages st2 = Inl (e, s) \<and> 1 \<le> k \<and> k \<le> length pages
           \<and> pages_requested s = pages_requested st2 @ take k pages"
        then obtain e s k where k: "process_pages w g pages st2 = Inl (e, s)" "1 \<le> k"
          "k \<le> length pages" "pages_requested s = pages_requested st2 @ take k pages"
          by blast
        have "process_pages w g (page # pages) st = Inl (e, s) \<and> 1 \<le> Suc k
          \<and> Suc k \<le> length (page # pages)
          \<and> pages_requested s = pages_requested st @ take (Suc k) (page # pages)"
          using k eq r2 by simp
        then show ?thesis by blast
      qed
    qed
  qed
qed

text \<open>
  Claim C8. Let \<open>n\<close> be the first page that fails or is empty. Then the main loop ends, and
  its result is that of processing the pages \<open>1\<close> to \<open>n - 1\<close> in order and then fetching
  page \<open>n\<close>. The pages requested are \<open>1, \<dots>, k\<close> for some \<open>k \<le> n\<close>, with \<open>k = n\<close> unless an
  uncaught exception stopped the run earlier: no page after \<open>n\<close> is requested, whatever
  the store would have answered for it.
\<close>

theorem pagination_stops_at_first_empty_page:
  assumes "1 \<le> n" and "\<forall>p. 1 \<le> p \<and> p < n \<longrightarrow> \<not> page_empty w p" and "page_empty w n"
  shows "\<exists>r k. crawl w g st = Some r
     \<and> r = (case process_pages w g [1..<n] st of
              Inl x \<Rightarrow> Inl x
            | Inr st' \<Rightarrow> Inr (snd (get_page w n st')))
     \<and> 1 \<le> k \<and> k \<le> n
     \<and> pages_requested (reached r) = pages_requested st @ [1..<Suc k]
     \<and> (\<forall>st'. r = Inr st' \<longrightarrow> k = n)"
proof -
  let ?r = "case process_pages w g [1..<n] st of
              Inl x \<Rightarrow> Inl x
            | Inr st' \<Rightarrow> Inr (snd (get_page w n st'))"
  have n: "1 + (n - 1) = n"
    using assms(1) by simp
  have "page_loop w g 1 (fst (get_page w 1 st)) (snd (get_page w 1 st))
         = Some (case process_pages w g [1..<1 + (n - 1)] st of
                   Inl x \<Rightarrow> Inl x
                 | Inr st' \<Rightarrow> Inr (snd (get_page w (1 + (n - 1)) st')))"
    by (rule page_loop_upto) (use assms n in auto)
  then have run: "crawl w g st = Some ?r"
    unfolding n by (cases "get_page w 1 st") (simp add: crawl_def)
  from process_pages_requested [of w g "[1..<n]" st]
  have "\<exists>k. 1 \<le> k \<and> k \<le> n \<and> pages_requested (reached ?r) = pages_requested st @ [1..<Suc k]
     \<and> (\<forall>st'. ?r = Inr st' \<longrightarrow> k = n)"
  proof
    assume "\<exists>s. process_pages w g [1..<n] st = Inr s
        \<and> pages_requested s = pages_requested st @ [1..<n]"
    then obtain s where s: "process_pages w g [1..<n] st = Inr s"
      "pages_requested s = pages_requested st @ [1..<n]" by blast
    have "[1..<n] @ [n] = [1..<Suc n]"
      using assms(1) by simp
    then have "pages_requested (reached ?r) = pages_requested st @ [1..<Suc n]"
      using s get_page_requests [of w n s] by simp
    then show ?thesis using assms(1) by blast
  next
    assume "\<exists>e s k. process_pages w g [1..<n] st = Inl (e, s) \<and> 1 \<le> k \<and> k \<le> length [1..<n]
        \<and> pages_requested s = pages_requested st @ take k [1..<n]"
    then obtain e s k where k: "process_pages w g [1..<n] st = Inl (e, s)" "1 \<le> k"
      "k \<le> length [1..<n]" "pages_requested s = pages_requested st @ take k [1..<n]"
      by blast
    have "take k [1..<n] = [1..<Suc k]"
      using k(2,3) by (simp add: take_upt)
    then have "1 \<le> k \<and> k \<le> n \<and> pages_requested (reached ?r) = pages_requested st @ [1..<Suc k]
       \<and> (\<forall>st'. ?r = Inr st' \<longrightarrow> k = n)"
      using k by simp
    then show ?thesis by blast
  qed
  with run show ?thesis by blast
qed

theorem pagination_stops_at_first_empty_page_witness:
  "(1::nat) \<le> 2 \<and> \<not> page_empty shop_example 1 \<and> page_empty shop_example 2
   \<and> (\<exists>st'. crawl shop_example shop_globals init_state = Some (Inr st')
        \<and> pages_requested st' = [1, 2])"
proof -
  have h1: "(1::nat) \<le> 2"
    by simp
  have h0: "\<not> page_empty shop_example 1"
    by (simp add: page_empty_def shop_example_def)
  have h2: "\<forall>p. 1 \<le> p \<and> p < 2 \<longrightarrow> \<not> page_empty shop_example p"
  proof (intro allI impI)
    fix p :: nat
    assume "1 \<le> p \<and> p < 2"
    then have "p = 1" by simp
    then show "\<not> page_empty shop_example p"
      using h0 by simp
  qed
  have h3: "page_empty shop_example 2"
    by (simp add: page_empty_def shop_example_def)
  from pagination_stops_at_first_empty_page [OF h1 h2 h3, of shop_globals init_state]
  obtain r k where r: "crawl shop_example shop_globals init_state = Some r"
    "r = (case process_pages shop_example shop_globals [1..<2] init_state of
            Inl x \<Rightarrow> Inl x
          | Inr st' \<Rightarrow> Inr (snd (get_page shop_example 2 st')))"
    "pages_requested (reached r) = pages_requested init_state @ [1..<Suc k]"
    "\<forall>st'. r = Inr st' \<longrightarrow> k = 2"
    by blast
  have "\<exists>st. process_pages shop_example shop_globals [1..<2] init_state = Inr st"
    by (simp add: upt_rec get_page_def get_tags_from_product_def get_complete_product_data_def
        process_product_def product_url_of_def dict_keys_def shop_example_def shop_globals_def
        product_a_def)
  then obtain st' where st': "r = Inr st'"
    using r(2) by auto
  then have "k = 2"
    using r(4) by simp
  then have "pages_requested st' = [1, 2]"
    using r(3) st' by (simp add: pages_requested_def init_state_def upt_rec)
  then show ?thesis
    using h1 h0 h3 r(1) st' by simp
qed

section \<open>Rows and the header\<close>

text \<open>
  Rows have the length of the header in every run that is not in variant mode, has no
  variant column, or meets no detail record without a \<^verbatim>\<open>variants\<close> key. This holds for the
  rows written before an uncaught exception as well.
\<close>

lemma variant_loop_aligned:
  "with_variants g \<Longrightarrow> length lead = 3 \<Longrightarrow> aligned g st \<Longrightarrow>
   aligned g (reached (variant_loop g lead fp vs st))"
proof (induction vs arbitrary: st)
  case Nil
  then show ?case by simp
next
  case (Cons v vs)
  show ?case
  proof (cases v)
    case (JDict m)
    have "aligned g (count_variant (writerow (lead @ field_values (product_fields g) fp
              @ field_values (variant_fields g) (flatten m)) st))"
      using Cons.prems
      by (simp add: aligned_def count_variant_def writerow_def header_def field_values_def)
    then show ?thesis
      using Cons.IH Cons.prems(1,2) JDict by simp
  qed (use Cons.prems in simp_all)
qed

lemma process_product_aligned:
  assumes "\<not> with_variants g \<or> variant_fields g = [] \<or> variants_everywhere w"
    and "aligned g st"
  shows "aligned g (reached (process_product w g product st))"
proof (cases "product_url_of (base_url g) product")
  case (Inl e)
  then show ?thesis
    using assms(2) by (simp add: process_product_def)
next
  case (Inr product_url)
  obtain title description st1 where tags:
    "get_tags_from_product w product_url (print (Scraping product_url) st) = ((title, description), st1)"
    by (metis surj_pair)
  obtain complete_product st2 where cp:
    "get_complete_product_data w product_url st1 = (complete_product, st2)"
    by (cases "get_complete_product_data w product_url st1")
  have r1: "rows st1 = rows st"
    using tags by (auto simp: get_tags_from_product_def print_def send_def split: sum.splits)
  have r2: "rows st2 = rows st"
    using cp r1 by (auto simp: get_complete_product_data_def print_def send_def split: sum.splits)
  then have a2: "aligned g st2"
    using assms(2) by (simp add: aligned_def)
  let ?lead = "[JStr product_url, title, description]"
  show ?thesis
  proof (cases complete_product)
    case (JDict d)
    have resp: "d \<noteq> [] \<Longrightarrow> json_resp w (product_url @ ''.json'') = Inr (JDict d)"
      using cp JDict by (auto simp: get_complete_product_data_def split: sum.splits)
    show ?thesis
    proof (cases "with_variants g \<and> ''variants'' \<in> set (dict_keys d)")
      case True
      then obtain variants where v: "map_of d ''variants'' = Some variants"
        by (auto simp: dict_keys_def dest: weak_map_of_SomeI)
      show ?thesis
      proof (cases "py_iter variants")
        case (Inl e)
        then show ?thesis
          using Inr tags cp JDict True v a2 by (simp add: process_product_def)
      next
        case vs: (Inr vs)
        have "aligned g (reached (variant_loop g ?lead (flatten d) vs st2))"
          using True a2 by (intro variant_loop_aligned) simp_all
        then show ?thesis
          using Inr tags cp JDict True v vs a2
          by (cases "variant_loop g ?lead (flatten d) vs st2")
            (auto simp: process_product_def aligned_def count_product_def)
      qed
    next
      case False
      have "d \<noteq> [] \<Longrightarrow> length (header g) = 3 + length (product_fields g)"
        using False assms(1) resp
        by (auto simp: header_def variants_everywhere_def)
      then show ?thesis
        using Inr tags cp JDict False a2
        by (auto simp: process_product_def aligned_def count_product_def writerow_def
            field_values_def)
    qed
  qed (use Inr tags cp a2 in \<open>simp_all add: process_product_def\<close>)
qed


lemma product_loop_aligned:
  assumes "\<not> with_variants g \<or> variant_fields g = [] \<or> variants_everywhere w"
  shows "aligned g st \<Longrightarrow> aligned g (reached (product_loop w g products st))"
proof (induction products arbitrary: st)
  case Nil
  then show ?case by simp
next
  case (Cons product products)
  have a: "aligned g (reached (process_product w g product st))"
    using assms Cons.prems by (rule process_product_aligned)
  show ?case
  proof (cases "process_product w g product st")
    case (Inl x)
    then show ?thesis using a by simp
  next
    case (Inr st')
    then show ?thesis using a Cons.IH [of st'] by simp
  qed
qed


lemma get_page_rows: "rows (snd (get_page w page st)) = rows st"
  by (simp add: get_page_def print_def send_def split: sum.splits)


lemma page_loop_aligned:
  assumes "page_loop w g page products st = Some r"
    and "\<not> with_variants g \<or> variant_fields g = [] \<or> variants_everywhere w"
    and "aligned g st"
  shows "aligned g (reached r)"
proof -
  let ?ok = "\<lambda>w g. \<not> with_variants g \<or> variant_fields g = [] \<or> variants_everywhere w"
  let ?P = "\<lambda>w g (page::nat) (products::json) st r.
              ?ok w g \<longrightarrow> aligned g st \<longrightarrow> aligned g (reached r)"
  have "?P w g page products st r"
  proof (rule page_loop.raw_induct [where P = ?P, OF _ assms(1)])
    fix loop w g page products st r
    assume IH: "\<And>w g page products st r. loop w g page products st = Some r \<Longrightarrow>
                  ?P w g page products st r"
      and body: "(if truthy products
            then case py_iter products of Inl e \<Rightarrow> Some (Inl (e, st))
                 | Inr items \<Rightarrow>
                     case product_loop w g items st of Inl x \<Rightarrow> Some (Inl x)
                     | Inr st' \<Rightarrow>
                         case get_page w (page + 1) st' of
                         (products', st'') \<Rightarrow> loop w g (page + 1) products' st''
            else Some (Inr st)) = Some r"
    show "?P w g page products st r"
    proof (intro impI)
      assume ok: "?ok w g" and al: "aligned g st"
      show "aligned g (reached r)"
      proof (cases "truthy products")
        case False
        then show ?thesis using al body by auto
      next
        case True
        show ?thesis
        proof (cases "py_iter products")
          case (Inl e)
          then show ?thesis using True al body by auto
        next
          case (Inr items)
          have a: "aligned g (reached (product_loop w g items st))"
            using ok al by (rule product_loop_aligned)
          show ?thesis
          proof (cases "product_loop w g items st")
            case (Inl x)
            then show ?thesis using True Inr a body by auto
          next
            case st': (Inr st')
            obtain products' st'' where gp: "get_page w (page + 1) st' = (products', st'')"
              by (cases "get_page w (page + 1) st'")
            have "aligned g st''"
              using a st' gp get_page_rows [of w "page + 1" st'] by (simp add: aligned_def)
            moreover have "loop w g (page + 1) products' st'' = Some r"
              using True Inr st' gp body by simp
            ultimately show ?thesis
              using IH ok by blast
          qed
        qed
      qed
    qed
  qed
  then show ?thesis
    using assms(2,3) by simp
qed

lemma crawl_aligned:
  assumes "crawl w g st = Some r"
    and "\<not> with_variants g \<or> variant_fields g = [] \<or> variants_everywhere w"
    and "aligned g st"
  shows "aligned g (reached r)"
proof -
  obtain products st' where gp: "get_page w 1 st = (products, st')"
    by (cases "get_page w 1 st")
  have "aligned g st'"
    using assms(3) gp get_page_rows [of w 1 st] by (simp add: aligned_def)
  moreover have "page_loop w g 1 products st' = Some r"
    using assms(1) gp by (simp add: crawl_def)
  ultimately show ?thesis
    using assms(2) page_loop_aligned by blast
qed

lemma sample_fields:
  "get_all_product_fields
     [JDict [(''id'', JInt 1), (''title'', JStr ''A''),
             (''variants'', JList [JDict [(''id'', JInt 10), (''price'', JStr ''9.99'')]])],
      JDict [(''id'', JInt 2), (''title'', JStr ''B'')]]
   = Inr [''id'', ''title'', ''variants_0_id'', ''variants_0_price'']"
  "get_all_variant_fields [JDict [(''id'', JInt 10), (''price'', JStr ''9.99'')]]
   = [''id'', ''price'']"
  by code_simp+

text \<open>
  Claim C1. The claim fails in variant mode for a product whose detail has no
  \<^verbatim>\<open>variants\<close> key: the row has the leading and the product values only, while the header
  also has the variant columns. In the run below the header has 9 columns, the row of
  product \<^verbatim>\<open>a\<close> has 9 values and the row of product \<^verbatim>\<open>b\<close> has 7.
\<close>

theorem short_row_without_variants:
  "\<exists>r. main shop_two
          \<lparr>website_url = Some ''https://shop.example'', variants = True, debug = False\<rparr>
        = Some r
     \<and> status r = Exit 0
     \<and> csv_header r =
         Some [''scraped_url'', ''meta_title'', ''meta_description'', ''id'', ''title'',
               ''variants_0_id'', ''variants_0_price'', ''variant_id'', ''variant_price'']
     \<and> rows (final r) =
         [[JStr ''https://shop.example/products/a'', JStr ''Shop'', JStr ''All we sell'',
           JInt 1, JStr ''A'', JInt 10, JStr ''9.99'', JInt 10, JStr ''9.99''],
          [JStr ''https://shop.example/products/b'', JStr ''Shop'', JStr ''All we sell'',
           JInt 2, JStr ''B'', JStr [], JStr []]]
     \<and> length (the (csv_header r)) = 9
     \<and> length (rows (final r) ! 1) = 7"
  by (simp add: main_def header_def crawl_def get_page_def get_tags_from_product_def
      get_complete_product_data_def process_product_def product_url_of_def print_def send_def
      writerow_def count_product_def count_variant_def field_values_def dict_get_def
      dict_keys_def flatten_def py_dict_def init_state_def page_loop.simps summary_prints_def
      shop_two_def product_a_def product_b_def str_nat.simps digit_char_def sample_fields)

end
